theory Spec2Isabelle
  imports Complex_Main "HOL-Library.Log_Nat"
begin

section \<open>Constants of page.tsx\<close>

text \<open>
  The frame counter, which only ever holds non-negative whole numbers, is an \<open>int\<close>,
  and ratios such as the opacity are \<open>real\<close>. On the whole numbers that occur,
  \<open>Math.floor (a / b)\<close> is \<open>a div b\<close> and \<open>a % b\<close> is \<open>a mod b\<close> (dividend
  non-negative, divisor positive). Where the rounding or the overflow of a double decides
  what the code does (the frame counts computed by \<open>handleGenerate\<close>, the increment of
  the frame counter and the test that ends the loop), the double is modelled as such,
  below.
\<close>

definition CANVAS_WIDTH :: real where
  "CANVAS_WIDTH = 1280"

definition CANVAS_HEIGHT :: real where
  "CANVAS_HEIGHT = 720"

definition FPS :: real where
  "FPS = 30"

section \<open>Script parser (the \<open>scenes\<close> memo)\<close>

record Scene =
  title :: string
  body :: "string option"

text \<open>
  \<open>String.prototype.split\<close> with a one-character separator: the pieces between the
  separators, in order; the empty string gives one empty piece.
\<close>

fun split_on :: "char \<Rightarrow> string \<Rightarrow> string list" where
  "split_on d [] = [[]]"
| "split_on d (c # cs) =
     (if c = d then [] # split_on d cs
      else (c # hd (split_on d cs)) # tl (split_on d cs))"

text \<open>
  \<open>String.prototype.trim\<close>: the white space and line terminators of ECMAScript that
  fit in a \<open>char\<close> (TAB, LF, VT, FF, CR, SP, NBSP).
\<close>

definition is_white :: "char \<Rightarrow> bool" where
  "is_white c \<longleftrightarrow>
     c \<in> set [CHR 0x09, CHR 0x0A, CHR 0x0B, CHR 0x0C, CHR 0x0D, CHR 0x20, CHR 0xA0]"

definition trim :: "string \<Rightarrow> string" where
  "trim s = rev (dropWhile is_white (rev (dropWhile is_white s)))"

text \<open>
  The inner callback of \<open>scenes\<close>:
  \<^verbatim>\<open>const [title, body] = line.split("|").map((segment) => segment.trim());\<close>
  The destructuring takes the first two pieces and drops the others; a missing second
  piece is \<open>undefined\<close>, here \<open>None\<close>. \<open>split\<close> never returns the empty array, so the
  first case below is never taken.
\<close>

definition parseLine :: "string \<Rightarrow> Scene" where
  "parseLine line =
     (case map trim (split_on (CHR ''|'') line) of
        [] \<Rightarrow> \<lparr>title = [], body = None\<rparr>
      | [t] \<Rightarrow> \<lparr>title = t, body = None\<rparr>
      | t # b # rest \<Rightarrow> \<lparr>title = t, body = Some b\<rparr>)"

definition scenes :: "string \<Rightarrow> Scene list" where
  "scenes script =
     map parseLine (filter (\<lambda>line. line \<noteq> []) (map trim (split_on (CHR 0x0A) script)))"

section \<open>JavaScript numbers\<close>

text \<open>
  A JavaScript number is a finite double, an infinity or NaN; the finite ones are given
  by their value (the sign of zero plays no part here).
\<close>

datatype number = Num real | PosInfinity | NegInfinity | NaN

text \<open>
  The exponent of the binade of a non-zero real, \<open>\<lfloor>log\<^sub>2 \<bar>x\<bar>\<rfloor>\<close>, computed from bit
  lengths.
\<close>

definition binade :: "real \<Rightarrow> int" where
  "binade x =
     (if 1 \<le> \<bar>x\<bar> then bitlen \<lfloor>\<bar>x\<bar>\<rfloor> - 1 else - bitlen (\<lceil>1 / \<bar>x\<bar>\<rceil> - 1))"

text \<open>Rounding to the nearest whole number, halves to the even one.\<close>

definition roundEven :: "real \<Rightarrow> int" where
  "roundEven y =
     (let f = \<lfloor>y\<rfloor>
      in if y - of_int f < 1 / 2 then f
         else if 1 / 2 < y - of_int f then f + 1
         else if even f then f else f + 1)"

text \<open>
  The double nearest to a real (IEEE 754 binary64, round to nearest, ties to even): 53
  significant bits, exponents from \<open>-1022\<close> (below that the spacing stays
  \<open>2\<^sup>-\<^sup>1\<^sup>0\<^sup>7\<^sup>4\<close>), and an infinity when the rounded value reaches \<open>2\<^sup>1\<^sup>0\<^sup>2\<^sup>4\<close>. Every result
  of an arithmetic operation on doubles is the exact result rounded this way.
\<close>

definition toDouble :: "real \<Rightarrow> number" where
  "toDouble x =
     (if x = 0 then Num 0
      else (let e = max (binade x) (- 1022) - 52;
                r = of_int (roundEven (x / 2 powi e)) * 2 powi e
            in if 2 ^ 1024 \<le> \<bar>r\<bar> then (if 0 < x then PosInfinity else NegInfinity)
               else Num r))"

fun jsSign :: "number \<Rightarrow> real" where
  "jsSign (Num a) = sgn a"
| "jsSign PosInfinity = 1"
| "jsSign NegInfinity = - 1"
| "jsSign NaN = 0"

text \<open>The product \<open>x * y\<close> of two numbers.\<close>

fun jsMul :: "number \<Rightarrow> number \<Rightarrow> number" where
  "jsMul (Num a) (Num b) = toDouble (a * b)"
| "jsMul NaN y = NaN"
| "jsMul x NaN = NaN"
| "jsMul x y =
     (if jsSign x * jsSign y = 0 then NaN
      else if 0 < jsSign x * jsSign y then PosInfinity else NegInfinity)"

text \<open>The comparison \<open>x <= y\<close> of two numbers.\<close>

fun jsLe :: "number \<Rightarrow> number \<Rightarrow> bool" where
  "jsLe NaN y = False"
| "jsLe x NaN = False"
| "jsLe (Num a) (Num b) = (a \<le> b)"
| "jsLe NegInfinity y = True"
| "jsLe x PosInfinity = True"
| "jsLe x y = False"

text \<open>
  \<open>Math.round\<close> gives the nearest whole number, halves upwards, which is a double
  whenever its argument is one; \<open>Math.max\<close> of two numbers.
\<close>

fun mathRound :: "number \<Rightarrow> number" where
  "mathRound (Num x) = Num (of_int (round x))"
| "mathRound x = x"

fun mathMax :: "number \<Rightarrow> number \<Rightarrow> number" where
  "mathMax NaN y = NaN"
| "mathMax x NaN = NaN"
| "mathMax x y = (if jsLe x y then y else x)"

text \<open>
  \<open>currentFrame += 1\<close> on a counter that holds a whole number: the sum, rounded to a
  double. From \<open>2\<^sup>5\<^sup>3\<close> on the counter no longer moves.
\<close>

definition jsSucc :: "int \<Rightarrow> int" where
  "jsSucc k = (case toDouble (of_int k + 1) of Num x \<Rightarrow> \<lfloor>x\<rfloor> | _ \<Rightarrow> k)"

section \<open>Timeline values of \<open>renderFrame\<close>\<close>

text \<open>
  The two frame counts of \<open>handleGenerate\<close>. The scene duration is the double nearest to
  the number given (the state holds what \<open>Number\<close> made of the input's text).
\<close>

definition framesPerScene :: "real \<Rightarrow> number" where
  "framesPerScene sceneDuration =
     mathMax (Num 1) (mathRound (jsMul (toDouble sceneDuration) (Num FPS)))"

definition totalFrames :: "real \<Rightarrow> nat \<Rightarrow> number" where
  "totalFrames sceneDuration sceneCount =
     jsMul (framesPerScene sceneDuration) (Num (of_nat sceneCount))"

record Timeline =
  overallProgress :: real
  sceneIndex :: int
  frameWithinScene :: int
  fadeSpan :: int
  opacity :: real

definition fadeSpanOf :: "int \<Rightarrow> int" where
  "fadeSpanOf fps = max 6 (fps div 6)"

definition opacityOf :: "int \<Rightarrow> int \<Rightarrow> real" where
  "opacityOf fps fws =
     (if fws < fadeSpanOf fps then of_int fws / of_int (fadeSpanOf fps)
      else if fws > fps - fadeSpanOf fps
           then max 0 (of_int (fps - fws) / of_int (fadeSpanOf fps))
      else 1)"

text \<open>
  The values computed at the head of \<open>renderFrame\<close> from the scene count, the frames
  per scene and the frame counter.
\<close>

definition timelineStep :: "nat \<Rightarrow> int \<Rightarrow> int \<Rightarrow> Timeline" where
  "timelineStep sceneCount fps currentFrame =
     (let progress = of_int currentFrame / of_int (fps * int sceneCount);
          idx = min (int sceneCount - 1) (currentFrame div fps);
          fws = currentFrame mod fps
      in \<lparr>overallProgress = progress,
          sceneIndex = idx,
          frameWithinScene = fws,
          fadeSpan = fadeSpanOf fps,
          opacity = opacityOf fps fws\<rparr>)"

text \<open>
  \<open>motionOffset\<close> is the one value of the step that goes through \<open>Math.sin\<close>; it is
  kept apart from the record so that the other values stay computable.
\<close>

definition motionOffset :: "nat \<Rightarrow> int \<Rightarrow> int \<Rightarrow> real" where
  "motionOffset sceneCount fps currentFrame =
     (let t = timelineStep sceneCount fps currentFrame
      in sin ((overallProgress t + of_int (sceneIndex t) * (1 / 10)) * pi * 2) * 18)"

section \<open>Text layout (\<open>wrapText\<close>)\<close>

text \<open>
  One turn of the first loop of \<open>wrapText\<close>, on the lines committed so far and the
  line being built. \<open>measureText\<close> stands for \<open>context.measureText(\<cdot>).width\<close> under
  the font in force.
\<close>

definition wrapStep ::
  "(string \<Rightarrow> real) \<Rightarrow> real \<Rightarrow> string list \<times> string \<Rightarrow> string \<Rightarrow> string list \<times> string"
where
  "wrapStep measureText maxWidth state word =
     (let lines = fst state;
          currentLine = snd state;
          testLine = (if length currentLine = 0 then word else currentLine @ '' '' @ word)
      in if measureText testLine > maxWidth \<and> length currentLine > 0
         then (lines @ [currentLine], word)
         else (lines, testLine))"

text \<open>The loop \<open>for (const word of words)\<close>, from any state.\<close>

definition wrapLoop ::
  "(string \<Rightarrow> real) \<Rightarrow> real \<Rightarrow> string list \<times> string \<Rightarrow> string list \<Rightarrow> string list \<times> string"
where
  "wrapLoop measureText maxWidth state words = foldl (wrapStep measureText maxWidth) state words"

text \<open>The lines \<open>wrapText\<close> has collected when it starts to draw.\<close>

definition wrapLines :: "(string \<Rightarrow> real) \<Rightarrow> real \<Rightarrow> string \<Rightarrow> string list" where
  "wrapLines measureText maxWidth text =
     (let final = wrapLoop measureText maxWidth ([], []) (split_on (CHR '' '') text);
          lines = fst final;
          currentLine = snd final
      in if length currentLine > 0 then lines @ [currentLine] else lines)"

text \<open>Joining lines with single spaces, as \<open>lines.join(" ")\<close> would.\<close>

fun join_spaces :: "string list \<Rightarrow> string" where
  "join_spaces [] = []"
| "join_spaces [l] = l"
| "join_spaces (l # m # ls) = l @ '' '' @ join_spaces (m # ls)"

text \<open>
  The pieces of a line around its first delimiter, in the words of the specification:
  what stands before the first delimiter, what stands after it, and the segment that
  follows it (up to the next delimiter or the end of the line).
\<close>

definition before_first :: "char \<Rightarrow> string \<Rightarrow> string" where
  "before_first d s = takeWhile (\<lambda>c. c \<noteq> d) s"

definition after_first :: "char \<Rightarrow> string \<Rightarrow> string" where
  "after_first d s = tl (dropWhile (\<lambda>c. c \<noteq> d) s)"

definition segment_after_first :: "char \<Rightarrow> string \<Rightarrow> string" where
  "segment_after_first d s = before_first d (after_first d s)"

section \<open>The drawing surface\<close>

text \<open>
  The part of \<open>CanvasRenderingContext2D\<close> that the page uses: the paint state that
  \<open>save\<close> and \<open>restore\<close> push and pop, the stack of saved states, and the drawing calls
  made so far, each with the paint state it was made under.
\<close>

datatype FillStyle =
    Color string
  | LinearGradient real real real real "(real \<times> string) list"
  | RadialGradient real real real real real real "(real \<times> string) list"

record PaintState =
  globalAlpha :: real
  fillStyle :: FillStyle
  font :: string
  textAlign :: string
  textBaseline :: string

datatype DrawCall =
    FillRect real real real real
  | BeginPath
  | Arc real real real real real
  | Fill
  | FillText string real real

record Context =
  paint :: PaintState
  stack :: "PaintState list"
  calls :: "(DrawCall \<times> PaintState) list"

definition defaultPaint :: PaintState where
  "defaultPaint =
     \<lparr>globalAlpha = 1, fillStyle = Color ''#000000'', font = ''10px sans-serif'',
      textAlign = ''start'', textBaseline = ''alphabetic''\<rparr>"

text \<open>Assigning \<open>canvas.width\<close> clears the surface and resets its context.\<close>

definition freshContext :: Context where
  "freshContext = \<lparr>paint = defaultPaint, stack = [], calls = []\<rparr>"

definition save :: "Context \<Rightarrow> Context" where
  "save c = c\<lparr>stack := paint c # stack c\<rparr>"

text \<open>\<open>restore\<close> on an empty stack does nothing.\<close>

definition restore :: "Context \<Rightarrow> Context" where
  "restore c = (case stack c of [] \<Rightarrow> c | p # ps \<Rightarrow> c\<lparr>paint := p, stack := ps\<rparr>)"

text \<open>The canvas ignores a \<open>globalAlpha\<close> outside the unit interval.\<close>

definition setGlobalAlpha :: "real \<Rightarrow> Context \<Rightarrow> Context" where
  "setGlobalAlpha a c =
     (if 0 \<le> a \<and> a \<le> 1 then c\<lparr>paint := (paint c)\<lparr>globalAlpha := a\<rparr>\<rparr> else c)"

text \<open>
  Colours come from the page's colour inputs (\<open>#rrggbb\<close>), so every assignment to
  \<open>fillStyle\<close> is accepted.
\<close>

definition setFillStyle :: "FillStyle \<Rightarrow> Context \<Rightarrow> Context" where
  "setFillStyle f c = c\<lparr>paint := (paint c)\<lparr>fillStyle := f\<rparr>\<rparr>"

definition setFont :: "string \<Rightarrow> Context \<Rightarrow> Context" where
  "setFont f c = c\<lparr>paint := (paint c)\<lparr>font := f\<rparr>\<rparr>"

definition setTextAlign :: "string \<Rightarrow> Context \<Rightarrow> Context" where
  "setTextAlign a c = c\<lparr>paint := (paint c)\<lparr>textAlign := a\<rparr>\<rparr>"

definition setTextBaseline :: "string \<Rightarrow> Context \<Rightarrow> Context" where
  "setTextBaseline b c = c\<lparr>paint := (paint c)\<lparr>textBaseline := b\<rparr>\<rparr>"

definition draw :: "DrawCall \<Rightarrow> Context \<Rightarrow> Context" where
  "draw d c = c\<lparr>calls := calls c @ [(d, paint c)]\<rparr>"

section \<open>The host environment and the style\<close>

text \<open>
  What the browser decides: the guards of \<open>handleGenerate\<close>, the codecs it supports,
  the width of a text under a font, and the value of
  \<open>Number.parseInt(context.font, 10) || 24\<close> for a font (the serialisation of
  \<open>context.font\<close> is the browser's).
\<close>

record Env =
  isClient :: bool
  hasMediaRecorder :: bool
  canvasPresent :: bool
  contextPresent :: bool
  isTypeSupported :: "string \<Rightarrow> bool"
  measureText :: "string \<Rightarrow> string \<Rightarrow> real"
  parsedFontSize :: "string \<Rightarrow> real"

record Style =
  primaryColor :: string
  accentColor :: string
  backgroundStart :: string
  backgroundEnd :: string

definition MIME_PREFERENCE :: "string list" where
  "MIME_PREFERENCE =
     [''video/webm;codecs=vp9'', ''video/webm;codecs=vp8'', ''video/webm;codecs=h264'',
      ''video/webm'']"

section \<open>Painting\<close>

text \<open>The second loop of \<open>wrapText\<close>: one \<open>fillText\<close> per line.\<close>

fun fillLines :: "Context \<Rightarrow> string list \<Rightarrow> real \<Rightarrow> real \<Rightarrow> real \<Rightarrow> Context" where
  "fillLines c [] centerX drawY lineHeight = c"
| "fillLines c (line # rest) centerX drawY lineHeight =
     fillLines (draw (FillText line centerX drawY) c) rest centerX (drawY + lineHeight) lineHeight"

definition wrapText :: "Env \<Rightarrow> Context \<Rightarrow> string \<Rightarrow> real \<Rightarrow> real \<Rightarrow> real \<Rightarrow> Context" where
  "wrapText env c text centerX centerY maxWidth =
     (let lines = wrapLines (measureText env (font (paint c))) maxWidth text;
          fontSize = parsedFontSize env (font (paint c));
          lineHeight = fontSize * (126 / 100);
          totalHeight = lineHeight * of_nat (length lines);
          drawY = centerY - totalHeight / 2 + lineHeight / 2
      in fillLines c lines centerX drawY lineHeight)"

definition blobCount :: nat where
  "blobCount = 5"

text \<open>
  The radial gradient of blob \<open>index\<close>. \<open>x % 1\<close> on a non-negative \<open>x\<close> is its
  fractional part.
\<close>

definition blobGradient :: "Style \<Rightarrow> real \<Rightarrow> nat \<Rightarrow> FillStyle" where
  "blobGradient st progress index =
     (let blobProgress = frac (progress * (of_nat index + 1) * (7 / 10) + of_nat index * (13 / 100));
          direction = (if index mod 2 = 0 then 1 else - 1);
          blobX = CANVAS_WIDTH * (15 / 100 + (7 / 10) * blobProgress);
          blobY = CANVAS_HEIGHT * (25 / 100 + (1 / 2) * (1 - blobProgress));
          radius = 180 + sin (progress * pi * 2 + of_nat index) * 60;
          baseColor = (if index mod 2 = 0 then accentColor st else primaryColor st)
      in RadialGradient (blobX + direction * 40) (blobY + direction * 40) 0 blobX blobY radius
           [(0, baseColor @ ''30''), (1, baseColor @ ''00'')])"

text \<open>One turn of the blob loop of \<open>drawBackground\<close>.\<close>

definition drawBlob :: "Style \<Rightarrow> real \<Rightarrow> Context \<Rightarrow> nat \<Rightarrow> Context" where
  "drawBlob st progress c index =
     (let blobProgress = frac (progress * (of_nat index + 1) * (7 / 10) + of_nat index * (13 / 100));
          blobX = CANVAS_WIDTH * (15 / 100 + (7 / 10) * blobProgress);
          blobY = CANVAS_HEIGHT * (25 / 100 + (1 / 2) * (1 - blobProgress));
          radius = 180 + sin (progress * pi * 2 + of_nat index) * 60;
          c1 = setFillStyle (blobGradient st progress index) c;
          c2 = draw BeginPath c1;
          c3 = draw (Arc blobX blobY radius 0 (pi * 2)) c2
      in draw Fill c3)"

definition drawBackground :: "Style \<Rightarrow> Context \<Rightarrow> real \<Rightarrow> Context" where
  "drawBackground st c progress =
     (let angle = progress * pi * 2;
          offsetX = cos angle * 120;
          offsetY = sin angle * 120;
          gradient = LinearGradient offsetX offsetY (CANVAS_WIDTH - offsetX) (CANVAS_HEIGHT - offsetY)
                       [(0, backgroundStart st), (1, backgroundEnd st)];
          c1 = setFillStyle gradient c;
          c2 = draw (FillRect 0 0 CANVAS_WIDTH CANVAS_HEIGHT) c1
      in foldl (drawBlob st progress) c2 [0..<blobCount])"

text \<open>
  \<open>drawScene\<close> receives \<open>scenes[sceneIndex]\<close>, which is \<open>undefined\<close> (here \<open>None\<close>) out
  of range; reading \<open>scene.title\<close> then throws, with the context as it is at that point
  (\<open>Inl\<close>). \<open>if (scene.body)\<close> skips an absent and an empty body alike.
\<close>

definition drawScene ::
  "Env \<Rightarrow> Style \<Rightarrow> Context \<Rightarrow> Scene option \<Rightarrow> real \<Rightarrow> real \<Rightarrow> Context + Context"
where
  "drawScene env st c scene opacity' motionOffset' =
     (let c1 = save c;
          c2 = setGlobalAlpha opacity' c1;
          c3 = setFillStyle (Color (primaryColor st)) c2;
          c4 = setTextAlign ''center'' c3;
          c5 = setTextBaseline ''middle'' c4;
          c6 = setFont ''700 72px 'Inter', 'Segoe UI', sans-serif'' c5
      in case scene of
           None \<Rightarrow> Inl c6
         | Some sc \<Rightarrow>
             (let c7 = wrapText env c6 (title sc) (CANVAS_WIDTH / 2)
                         (CANVAS_HEIGHT / 2 - 80 + motionOffset') 920;
                  c8 = (case body sc of
                          None \<Rightarrow> c7
                        | Some b \<Rightarrow>
                            if b = [] then c7
                            else wrapText env
                                   (setFont ''500 42px 'Inter', 'Segoe UI', sans-serif''
                                      (setFillStyle (Color (accentColor st)) c7))
                                   b (CANVAS_WIDTH / 2) (CANVAS_HEIGHT / 2 + 60 + motionOffset') 900)
              in Inr (restore c8)))"

text \<open>
  The three bracketed blocks at the end of the painting part of \<open>renderFrame\<close>: the
  track of the progress bar, its filled part, and the caption.
\<close>

definition timelineWidth :: real where
  "timelineWidth = CANVAS_WIDTH * (6 / 10)"

definition timelineHeight :: real where
  "timelineHeight = 12"

definition timelineX :: real where
  "timelineX = (CANVAS_WIDTH - timelineWidth) / 2"

definition timelineY :: real where
  "timelineY = CANVAS_HEIGHT - 80"

definition drawTrack :: "Context \<Rightarrow> Context" where
  "drawTrack c =
     restore (draw (FillRect timelineX timelineY timelineWidth timelineHeight)
       (setFillStyle (Color ''#0f172a'') (setGlobalAlpha (35 / 100) (save c))))"

definition drawFill :: "Style \<Rightarrow> real \<Rightarrow> Context \<Rightarrow> Context" where
  "drawFill st progress c =
     restore (draw (FillRect timelineX timelineY (timelineWidth * progress) timelineHeight)
       (setFillStyle (Color (accentColor st)) (setGlobalAlpha (85 / 100) (save c))))"

text \<open>Decimal digits of a whole number, for the template string of the caption.\<close>

fun decimal :: "nat \<Rightarrow> string" where
  "decimal n =
     (if n < 10 then [char_of (48 + n)]
      else decimal (n div 10) @ [char_of (48 + n mod 10)])"

declare decimal.simps [simp del]

definition showInt :: "int \<Rightarrow> string" where
  "showInt i = (if i < 0 then ''-'' @ decimal (nat (- i)) else decimal (nat i))"

definition drawCaption :: "Style \<Rightarrow> int \<Rightarrow> Scene \<Rightarrow> Context \<Rightarrow> Context" where
  "drawCaption st idx sc c =
     restore (draw (FillText (''Scene '' @ showInt (idx + 1) @ '' - '' @ title sc)
                      (CANVAS_WIDTH / 2) (CANVAS_HEIGHT - 110))
       (setTextAlign ''center''
         (setFont ''500 28px 'Inter', 'Segoe UI', sans-serif''
           (setFillStyle (Color (primaryColor st)) (setGlobalAlpha (6 / 10) (save c))))))"

text \<open>\<open>scenes[sceneIndex]\<close>.\<close>

definition sceneAt :: "Scene list \<Rightarrow> int \<Rightarrow> Scene option" where
  "sceneAt scs i = (if 0 \<le> i \<and> i < int (length scs) then Some (scs ! nat i) else None)"

text \<open>
  Everything \<open>renderFrame\<close> paints for one value of the frame counter, from
  \<open>drawBackground\<close> to the caption.
\<close>

definition paintFrame ::
  "Env \<Rightarrow> Style \<Rightarrow> Scene list \<Rightarrow> int \<Rightarrow> int \<Rightarrow> Context \<Rightarrow> Context + Context"
where
  "paintFrame env st scs fps currentFrame' c =
     (let t = timelineStep (length scs) fps currentFrame';
          c1 = drawBackground st c (overallProgress t)
      in case drawScene env st c1 (sceneAt scs (sceneIndex t)) (opacity t)
                (motionOffset (length scs) fps currentFrame') of
           Inl c2 \<Rightarrow> Inl c2
         | Inr c2 \<Rightarrow>
             (case sceneAt scs (sceneIndex t) of
                None \<Rightarrow> Inl c2
              | Some sc \<Rightarrow>
                  Inr (drawCaption st (sceneIndex t) sc
                        (drawFill st (overallProgress t) (drawTrack c2)))))"

text \<open>
  The same when \<open>framesPerScene\<close> is \<open>Infinity\<close>: then \<open>totalFrames\<close> is \<open>Infinity\<close> too,
  \<open>currentFrame / totalFrames\<close> and \<open>Math.floor(currentFrame / framesPerScene)\<close> are 0,
  \<open>fadeSpan\<close> is \<open>Infinity\<close>, and the opacity \<open>frameWithinScene / fadeSpan\<close> is 0.
\<close>

definition paintFrameEndless :: "Env \<Rightarrow> Style \<Rightarrow> Scene list \<Rightarrow> Context \<Rightarrow> Context + Context" where
  "paintFrameEndless env st scs c =
     (let idx = min (int (length scs) - 1) 0;
          c1 = drawBackground st c 0
      in case drawScene env st c1 (sceneAt scs idx) 0
                (sin ((0 + of_int idx * (1 / 10)) * pi * 2) * 18) of
           Inl c2 \<Rightarrow> Inl c2
         | Inr c2 \<Rightarrow>
             (case sceneAt scs idx of
                None \<Rightarrow> Inl c2
              | Some sc \<Rightarrow> Inr (drawCaption st idx sc (drawFill st 0 (drawTrack c2)))))"

section \<open>The render driver (\<open>handleGenerate\<close>, \<open>renderFrame\<close>)\<close>

datatype RecorderState = Inactive | Recording | Paused

text \<open>Calls into the host that start, feed or end a capture session, in order.\<close>

datatype Effect =
    CancelAnimationFrame
  | RequestAnimationFrame
  | DetachDataHandler
  | RecorderStop
  | CaptureStream real
  | NewMediaRecorder string nat
  | NewChunkBuffer
  | RecorderStart

text \<open>
  The state the driver works on: the component's \<open>renderError\<close> and \<open>isRendering\<close>,
  whether \<open>rafRef.current\<close> holds a handle, whether the host still owes a call of
  \<open>renderFrame\<close>, the recorder in \<open>recorderRef.current\<close> with its state, the drawing
  context, the frame counter of the running render, whether \<open>renderFrame\<close> threw, and
  the host calls made.
\<close>

record Driver =
  renderError :: "string option"
  isRendering :: bool
  rafRef :: bool
  pending :: bool
  recorderRef :: "RecorderState option"
  ctx :: Context
  currentFrame :: int
  threw :: bool
  effects :: "Effect list"

text \<open>What the closure \<open>renderFrame\<close> captures.\<close>

record Render =
  r_env :: Env
  r_style :: Style
  r_scenes :: "Scene list"
  r_framesPerScene :: number
  r_totalFrames :: number

definition teardownRecording :: "Driver \<Rightarrow> Driver" where
  "teardownRecording s =
     (let s1 = (if rafRef s
                then s\<lparr>rafRef := False, pending := False,
                       effects := effects s @ [CancelAnimationFrame]\<rparr>
                else s);
          s2 = (case recorderRef s1 of
                  None \<Rightarrow> s1
                | Some r \<Rightarrow>
                    if r \<noteq> Inactive
                    then s1\<lparr>recorderRef := Some Inactive,
                            effects := effects s1 @ [DetachDataHandler, RecorderStop]\<rparr>
                    else s1)
      in s2\<lparr>recorderRef := None\<rparr>)"

text \<open>
  What one call of \<open>renderFrame\<close> paints. \<open>Math.max(1, Math.round(\<dots>))\<close> is a whole
  number from 1 on or \<open>Infinity\<close>. It is never NaN or \<open>-Infinity\<close>: these two cases are
  not reached, and stand for a throw before anything is painted (with NaN the gradient
  of the background cannot be created). For a finite frame count the ratio
  \<open>currentFrame / totalFrames\<close> is taken exactly; the code has it rounded to a double,
  from a \<open>totalFrames\<close> that is itself rounded beyond \<open>2\<^sup>5\<^sup>3\<close>.
\<close>

definition framePainted :: "Render \<Rightarrow> int \<Rightarrow> Context \<Rightarrow> Context + Context" where
  "framePainted P currentFrame' c =
     (case r_framesPerScene P of
        Num f \<Rightarrow> paintFrame (r_env P) (r_style P) (r_scenes P) \<lfloor>f\<rfloor> currentFrame' c
      | PosInfinity \<Rightarrow> paintFrameEndless (r_env P) (r_style P) (r_scenes P) c
      | NegInfinity \<Rightarrow> Inl c
      | NaN \<Rightarrow> Inl c)"

text \<open>
  One call of \<open>renderFrame\<close>. The host's pending call, if this is one, is used up; the
  frame is painted; the counter goes up by one; then either the next call is requested
  or the recorder is stopped.
\<close>

definition renderFrame :: "Render \<Rightarrow> Driver \<Rightarrow> Driver" where
  "renderFrame P s =
     (case framePainted P (currentFrame s) (ctx s) of
        Inl c \<Rightarrow> s\<lparr>pending := False, ctx := c, threw := True\<rparr>
      | Inr c \<Rightarrow>
          (let s1 = s\<lparr>pending := False, ctx := c, currentFrame := jsSucc (currentFrame s)\<rparr>
           in if jsLe (Num (of_int (currentFrame s1))) (r_totalFrames P)
              then s1\<lparr>rafRef := True, pending := True,
                      effects := effects s1 @ [RequestAnimationFrame]\<rparr>
              else (let s2 = s1\<lparr>rafRef := False\<rparr>
                    in case recorderRef s2 of
                         None \<Rightarrow> s2
                       | Some r \<Rightarrow>
                           if r \<noteq> Inactive
                           then s2\<lparr>recorderRef := Some Inactive,
                                   effects := effects s2 @ [RecorderStop]\<rparr>
                           else s2)))"

text \<open>
  \<open>handleGenerate\<close> up to and including \<open>recorder.start()\<close>: the state it leaves, and the
  closure of the render when it got that far.
\<close>

definition startRender ::
  "Env \<Rightarrow> Style \<Rightarrow> Scene list \<Rightarrow> real \<Rightarrow> Driver \<Rightarrow> Driver \<times> Render option"
where
  "startRender env st scs sceneDuration s =
     (if \<not> isClient env then (s, None)
      else if \<not> hasMediaRecorder env
      then (s\<lparr>renderError := Some ''MediaRecorder is not supported in this browser.''\<rparr>, None)
      else if \<not> canvasPresent env
      then (s\<lparr>renderError := Some ''Canvas unavailable.''\<rparr>, None)
      else if length scs = 0
      then (s\<lparr>renderError := Some ''Add at least one scene to generate a video.''\<rparr>, None)
      else
        (let s1 = (teardownRecording s)\<lparr>renderError := None, isRendering := True\<rparr>
         in if \<not> contextPresent env
            then (s1\<lparr>renderError := Some ''Could not access the drawing context.'',
                     isRendering := False\<rparr>, None)
            else
              (let s2 = s1\<lparr>ctx := freshContext\<rparr>
               in case find (isTypeSupported env) MIME_PREFERENCE of
                    None \<Rightarrow>
                      (s2\<lparr>renderError := Some ''No supported video codecs found for this browser.'',
                          isRendering := False\<rparr>, None)
                  | Some mimeType \<Rightarrow>
                      (let s3 = s2\<lparr>recorderRef := Some Inactive,
                                   effects := effects s2 @
                                     [CaptureStream FPS, NewMediaRecorder mimeType 6000000,
                                      NewChunkBuffer]\<rparr>;
                           P = \<lparr>r_env = env, r_style = st, r_scenes = scs,
                                r_framesPerScene = framesPerScene sceneDuration,
                                r_totalFrames = totalFrames sceneDuration (length scs)\<rparr>;
                           s4 = s3\<lparr>currentFrame := 0, threw := False\<rparr>
                       in (s4\<lparr>recorderRef := Some Recording,
                              effects := effects s4 @ [RecorderStart]\<rparr>, Some P)))))"

text \<open>\<open>handleGenerate\<close>: the above, then the first call of \<open>renderFrame\<close>.\<close>

definition handleGenerate :: "Env \<Rightarrow> Style \<Rightarrow> Scene list \<Rightarrow> real \<Rightarrow> Driver \<Rightarrow> Driver" where
  "handleGenerate env st scs sceneDuration s =
     (case startRender env st scs sceneDuration s of
        (s', None) \<Rightarrow> s'
      | (s', Some P) \<Rightarrow> renderFrame P s')"

text \<open>
  The states of an undisturbed render loop, from the state in which \<open>renderFrame\<close> is
  first called: each call gives the next state, and the host calls again as long as a
  call is pending. The loop need not end, so the run is cut after a given number of
  calls: \<open>None\<close> says that a call was still pending then.
\<close>

primrec renderStates :: "nat \<Rightarrow> Render \<Rightarrow> Driver \<Rightarrow> Driver list option" where
  "renderStates 0 P s = None"
| "renderStates (Suc k) P s =
     (if pending (renderFrame P s)
      then map_option (\<lambda>rest. s # rest) (renderStates k P (renderFrame P s))
      else Some [s, renderFrame P s])"

declare renderStates.simps [simp del]

section \<open>Notions used to state the properties of the text layout\<close>

text \<open>
  The lines a state of the wrap loop stands for: the committed ones, then the line being
  built when it is not empty.
\<close>

definition all_lines :: "string list \<times> string \<Rightarrow> string list" where
  "all_lines state = fst state @ (if snd state = [] then [] else [snd state])"

text \<open>The non-empty words of a list of lines, in order.\<close>

definition words_of :: "string list \<Rightarrow> string list" where
  "words_of ls = filter (\<lambda>w. w \<noteq> []) (concat (map (split_on (CHR '' '')) ls))"

text \<open>
  A text is single-spaced when it is empty or no word between its spaces is empty: it
  neither starts nor ends with a space and has no two spaces in a row.
\<close>

definition single_spaced :: "string \<Rightarrow> bool" where
  "single_spaced text \<longleftrightarrow> text = [] \<or> (\<forall>w\<in>set (split_on (CHR '' '') text). w \<noteq> [])"

text \<open>
  A line is rebuilt by the loop when running the loop on its own words, from the initial
  state, commits no line and ends with that line as the current one.
\<close>

definition rebuilt :: "(string \<Rightarrow> real) \<Rightarrow> real \<Rightarrow> string \<Rightarrow> bool" where
  "rebuilt m W cur \<longleftrightarrow> wrapLoop m W ([], []) (split_on (CHR '' '') cur) = ([], cur)"

text \<open>One pixel per character, to run the wrap on examples.\<close>

definition charCount :: "string \<Rightarrow> real" where
  "charCount s = of_nat (length s)"

text \<open>Trimming at the end only, to relate the pieces of a line to those of the trimmed line.\<close>

definition rtrim :: "string \<Rightarrow> string" where
  "rtrim s = rev (dropWhile is_white (rev s))"

section \<open>A sample render\<close>

text \<open>
  The colours the page starts with, a browser that supports everything the page asks
  for (every text ten pixels per character wide), the component before any render, and
  the render of the script \<open>A|one\<newline>B|two\<close> at 4 seconds per scene as
  \<open>handleGenerate\<close> sets it up.
\<close>

definition defaultStyle :: Style where
  "defaultStyle =
     \<lparr>primaryColor = ''#0f172a'', accentColor = ''#38bdf8'',
      backgroundStart = ''#f1f5f9'', backgroundEnd = ''#dbeafe''\<rparr>"

definition sampleEnv :: Env where
  "sampleEnv =
     \<lparr>isClient = True, hasMediaRecorder = True, canvasPresent = True, contextPresent = True,
      isTypeSupported = (\<lambda>mimeType. True),
      measureText = (\<lambda>font' text. 10 * of_nat (length text)),
      parsedFontSize = (\<lambda>font'. 24)\<rparr>"

definition idleDriver :: Driver where
  "idleDriver =
     \<lparr>renderError = None, isRendering = False, rafRef = False, pending = False,
      recorderRef = None, ctx = freshContext, currentFrame = 0, threw = False, effects = []\<rparr>"

definition sampleRender :: Render where
  "sampleRender =
     \<lparr>r_env = sampleEnv, r_style = defaultStyle, r_scenes = scenes ''A|one\<newline>B|two'',
      r_framesPerScene = Num 120, r_totalFrames = Num 240\<rparr>"

definition sampleStart :: Driver where
  "sampleStart =
     idleDriver\<lparr>isRendering := True, recorderRef := Some Recording,
       effects := [CaptureStream 30, NewMediaRecorder ''video/webm;codecs=vp9'' 6000000,
                   NewChunkBuffer, RecorderStart]\<rparr>"

text \<open>
  A render closure with some scene and a finite number of frames per scene, at least
  one.
\<close>

definition well_formed :: "Render \<Rightarrow> bool" where
  "well_formed P \<longleftrightarrow>
     r_scenes P \<noteq> [] \<and> (\<exists>f. 1 \<le> f \<and> r_framesPerScene P = Num (of_int f))"

section \<open>Facts about the parser\<close>

lemma split_on_not_Nil: "split_on d s \<noteq> []"
  by (induction s) auto

lemma hd_split_on: "hd (split_on d s) = before_first d s"
  by (induction s) (auto simp: before_first_def)

lemma tl_split_on: "d \<in> set s \<Longrightarrow> tl (split_on d s) = split_on d (after_first d s)"
  by (induction s) (auto simp: after_first_def)

lemma split_on_no_sep: "d \<notin> set s \<Longrightarrow> split_on d s = [s]"
  by (induction s) auto

lemma split_on_with_sep:
  assumes "d \<in> set s"
  shows "\<exists>rest. split_on d s = before_first d s # segment_after_first d s # rest"
proof -
  obtain b rest where r: "split_on d (after_first d s) = b # rest"
    using split_on_not_Nil [of d "after_first d s"]
    by (cases "split_on d (after_first d s)") auto
  have b: "b = segment_after_first d s"
    using hd_split_on [of d "after_first d s"] r by (simp add: segment_after_first_def)
  obtain a as where s: "split_on d s = a # as"
    using split_on_not_Nil [of d s] by (cases "split_on d s") auto
  have "a = before_first d s"
    using hd_split_on [of d s] s by simp
  moreover have "as = b # rest"
    using tl_split_on [OF assms] s r by simp
  ultimately show ?thesis
    using s b by simp
qed

lemma parseLine_segments:
  "(CHR ''|'' \<in> set line \<longrightarrow>
      parseLine line = \<lparr>title = trim (before_first (CHR ''|'') line),
                         body = Some (trim (segment_after_first (CHR ''|'') line))\<rparr>)
   \<and> (CHR ''|'' \<notin> set line \<longrightarrow> parseLine line = \<lparr>title = trim line, body = None\<rparr>)"
proof (cases "CHR ''|'' \<in> set line")
  case True
  then obtain rest where
    "split_on (CHR ''|'') line
       = before_first (CHR ''|'') line # segment_after_first (CHR ''|'') line # rest"
    using split_on_with_sep by blast
  then show ?thesis
    using True by (simp add: parseLine_def)
next
  case False
  then show ?thesis
    by (simp add: parseLine_def split_on_no_sep)
qed

lemma trim_rtrim: "trim s = rtrim (dropWhile is_white s)"
  by (simp add: trim_def rtrim_def)

lemma bar_not_white: "\<not> is_white (CHR ''|'')"
  by (simp add: is_white_def)

lemma rtrim_append:
  "rtrim (a @ b) = (if \<forall>c\<in>set b. is_white c then rtrim a else a @ rtrim b)"
  by (simp add: rtrim_def dropWhile_append)

lemma rtrim_Cons:
  "rtrim (c # cs) = (if is_white c \<and> (\<forall>x\<in>set cs. is_white x) then [] else c # rtrim cs)"
  using rtrim_append [of "[c]" cs] by (auto simp add: rtrim_def)

lemma rtrim_Nil_iff: "rtrim s = [] \<longleftrightarrow> (\<forall>c\<in>set s. is_white c)"
  by (simp add: rtrim_def dropWhile_eq_Nil_conv)

lemma rtrim_idem: "rtrim (rtrim s) = rtrim s"
  by (simp add: rtrim_def)

lemma set_rtrim: "set (rtrim s) \<subseteq> set s"
  by (auto simp add: rtrim_def dest: set_dropWhileD)

lemma ltrim_rtrim: "dropWhile is_white (rtrim s) = rtrim (dropWhile is_white s)"
proof (induction s)
  case Nil
  then show ?case by (simp add: rtrim_def)
next
  case (Cons c cs)
  show ?case
  proof (cases "is_white c")
    case True
    show ?thesis
    proof (cases "\<forall>x\<in>set cs. is_white x")
      case all: True
      have "rtrim (c # cs) = []"
        using True all by (simp add: rtrim_Nil_iff)
      moreover have "dropWhile is_white (c # cs) = []"
        using True all by (simp add: dropWhile_eq_Nil_conv)
      moreover have "rtrim [] = []"
        by (simp add: rtrim_def)
      ultimately show ?thesis by simp
    next
      case False
      then have r: "rtrim (c # cs) = c # rtrim cs"
        by (auto simp add: rtrim_Cons)
      show ?thesis using True Cons by (simp add: r)
    qed
  next
    case False
    then show ?thesis by (simp add: rtrim_Cons)
  qed
qed

lemma trim_ltrim: "trim (dropWhile is_white s) = trim s"
  by (simp add: trim_def)

lemma trim_of_rtrim: "trim (rtrim s) = trim s"
  by (simp add: trim_rtrim ltrim_rtrim rtrim_idem)

lemma trim_idem: "trim (trim s) = trim s"
  by (simp add: trim_rtrim ltrim_rtrim rtrim_idem)

lemma before_first_ltrim:
  "\<not> is_white d \<Longrightarrow> before_first d (dropWhile is_white s) = dropWhile is_white (before_first d s)"
  by (induction s) (auto simp add: before_first_def)

lemma rtrim_split: "s = rtrim s @ rev (takeWhile is_white (rev s))"
proof -
  have "rev (dropWhile is_white (rev s)) @ rev (takeWhile is_white (rev s))
      = rev (takeWhile is_white (rev s) @ dropWhile is_white (rev s))"
    by (simp only: rev_append)
  also have "\<dots> = rev (rev s)"
    by (simp only: takeWhile_dropWhile_id)
  finally show ?thesis
    by (simp add: rtrim_def)
qed

lemma sep_in_rtrim: "\<not> is_white d \<Longrightarrow> d \<in> set s \<Longrightarrow> d \<in> set (rtrim s)"
proof -
  assume d: "\<not> is_white d" "d \<in> set s"
  have "d \<notin> set (rev (takeWhile is_white (rev s)))"
    using d(1) by (auto dest: set_takeWhileD)
  moreover have "d \<in> set (rtrim s @ rev (takeWhile is_white (rev s)))"
    using d(2) rtrim_split [of s] by simp
  ultimately show ?thesis by simp
qed

lemma before_first_rtrim:
  assumes "\<not> is_white d" and "d \<in> set s"
  shows "before_first d (rtrim s) = before_first d s"
proof -
  have "d \<in> set (rtrim s)"
    using sep_in_rtrim [OF assms] .
  then have "takeWhile (\<lambda>c. c \<noteq> d) (rtrim s @ rev (takeWhile is_white (rev s)))
      = takeWhile (\<lambda>c. c \<noteq> d) (rtrim s)"
    by (intro takeWhile_append1 [of d]) simp_all
  then show ?thesis
    using rtrim_split [of s] by (simp add: before_first_def)
qed

lemma after_first_ltrim:
  "\<not> is_white d \<Longrightarrow> after_first d (dropWhile is_white s) = after_first d s"
  by (induction s) (auto simp add: after_first_def)

lemma after_first_rtrim:
  "\<not> is_white d \<Longrightarrow> d \<in> set s \<Longrightarrow> after_first d (rtrim s) = rtrim (after_first d s)"
proof (induction s)
  case Nil
  then show ?case by simp
next
  case (Cons c cs)
  show ?case
  proof (cases "c = d")
    case True
    then show ?thesis
      using Cons.prems(1) by (simp add: rtrim_Cons after_first_def)
  next
    case False
    then have in_cs: "d \<in> set cs" using Cons.prems by simp
    then have "\<not> (\<forall>x\<in>set cs. is_white x)" using Cons.prems(1) by blast
    then have r: "rtrim (c # cs) = c # rtrim cs"
      by (auto simp add: rtrim_Cons)
    show ?thesis
      using False Cons.IH [OF Cons.prems(1) in_cs] by (simp add: r after_first_def)
  qed
qed

lemma sep_in_ltrim: "\<not> is_white d \<Longrightarrow> d \<in> set s \<Longrightarrow> d \<in> set (dropWhile is_white s)"
  by (induction s) auto

lemma sep_in_trim: "\<not> is_white d \<Longrightarrow> d \<in> set s \<longleftrightarrow> d \<in> set (trim s)"
proof -
  assume d: "\<not> is_white d"
  have a: "d \<in> set s \<longleftrightarrow> d \<in> set (dropWhile is_white s)"
  proof
    assume "d \<in> set s"
    then show "d \<in> set (dropWhile is_white s)"
      using d by (rule sep_in_ltrim [rotated])
  next
    assume "d \<in> set (dropWhile is_white s)"
    then show "d \<in> set s" by (rule set_dropWhileD)
  qed
  have "d \<in> set (dropWhile is_white s) \<longleftrightarrow> d \<in> set (rtrim (dropWhile is_white s))"
    using sep_in_rtrim [OF d] set_rtrim by blast
  then show ?thesis using a by (simp add: trim_rtrim)
qed

lemma trim_before_first:
  assumes "\<not> is_white d" and "d \<in> set s"
  shows "trim (before_first d (trim s)) = trim (before_first d s)"
proof -
  have "d \<in> set (dropWhile is_white s)"
    using assms sep_in_trim [OF assms(1), of s] set_rtrim [of "dropWhile is_white s"]
    by (auto simp add: trim_rtrim)
  then have "before_first d (trim s) = dropWhile is_white (before_first d s)"
    using assms(1) by (simp add: trim_rtrim before_first_rtrim before_first_ltrim)
  then show ?thesis by (simp add: trim_ltrim)
qed

lemma after_first_trim:
  assumes "\<not> is_white d" and "d \<in> set s"
  shows "after_first d (trim s) = rtrim (after_first d s)"
proof -
  have "d \<in> set (dropWhile is_white s)"
    using assms sep_in_trim [OF assms(1), of s] set_rtrim [of "dropWhile is_white s"]
    by (auto simp add: trim_rtrim)
  then show ?thesis
    using assms(1) by (simp add: trim_rtrim after_first_rtrim after_first_ltrim)
qed

lemma trim_segment_after_first:
  assumes "\<not> is_white d" and "d \<in> set s"
  shows "trim (segment_after_first d (trim s)) = trim (segment_after_first d s)"
proof (cases "d \<in> set (after_first d s)")
  case True
  then show ?thesis
    using assms by (simp add: segment_after_first_def after_first_trim before_first_rtrim)
next
  case False
  then have "d \<notin> set (rtrim (after_first d s))"
    using set_rtrim by blast
  then have "before_first d (rtrim (after_first d s)) = rtrim (after_first d s)"
    "before_first d (after_first d s) = after_first d s"
    using False by (auto simp add: before_first_def)
  then show ?thesis
    using assms by (simp add: segment_after_first_def after_first_trim trim_of_rtrim)
qed

lemma scenes_lines:
  "scenes script
     = map (\<lambda>line. parseLine (trim line))
         (filter (\<lambda>line. trim line \<noteq> []) (split_on (CHR 0x0A) script))"
  by (simp add: scenes_def filter_map comp_def)

text \<open>
  C5, as the code has it. The scenes of a script are the scenes parsed from its lines,
  trimmed, that are not blank. For every script line containing the delimiter \<open>|\<close>,
  the title of the parsed scene is the trimmed segment before the first delimiter, and
  its body is the trimmed segment between the first delimiter and the next one, or the
  end of the line when no other delimiter follows (the body is then all the text after
  the first delimiter); what follows a second delimiter is dropped. For every line
  without the delimiter the body is absent.
\<close>

theorem parseLine_title_body:
  "scenes script
     = map (\<lambda>line. parseLine (trim line))
         (filter (\<lambda>line. trim line \<noteq> []) (split_on (CHR 0x0A) script))
   \<and> (CHR ''|'' \<in> set line \<longrightarrow>
        title (parseLine (trim line)) = trim (before_first (CHR ''|'') line)
      \<and> body (parseLine (trim line)) = Some (trim (segment_after_first (CHR ''|'') line)))
   \<and> (CHR ''|'' \<in> set line \<and> CHR ''|'' \<notin> set (after_first (CHR ''|'') line) \<longrightarrow>
        body (parseLine (trim line)) = Some (trim (after_first (CHR ''|'') line)))
   \<and> (CHR ''|'' \<notin> set line \<longrightarrow>
        title (parseLine (trim line)) = trim line \<and> body (parseLine (trim line)) = None)"
proof (cases "CHR ''|'' \<in> set line")
  case True
  then have t: "CHR ''|'' \<in> set (trim line)"
    using sep_in_trim [OF bar_not_white, of line] by simp
  have "parseLine (trim line)
      = \<lparr>title = trim (before_first (CHR ''|'') (trim line)),
         body = Some (trim (segment_after_first (CHR ''|'') (trim line)))\<rparr>"
    using parseLine_segments [of "trim line"] t by simp
  then have p: "parseLine (trim line)
      = \<lparr>title = trim (before_first (CHR ''|'') line),
         body = Some (trim (segment_after_first (CHR ''|'') line))\<rparr>"
    using trim_before_first [OF bar_not_white True]
      trim_segment_after_first [OF bar_not_white True] by simp
  have "CHR ''|'' \<notin> set (after_first (CHR ''|'') line) \<Longrightarrow>
      segment_after_first (CHR ''|'') line = after_first (CHR ''|'') line"
    by (auto simp add: segment_after_first_def before_first_def)
  then show ?thesis
    using True p scenes_lines [of script] by auto
next
  case False
  then have "CHR ''|'' \<notin> set (trim line)"
    using sep_in_trim [OF bar_not_white, of line] by simp
  then have "parseLine (trim line) = \<lparr>title = trim (trim line), body = None\<rparr>"
    using parseLine_segments [of "trim line"] by simp
  then show ?thesis
    using False scenes_lines [of script] by (simp add: trim_idem)
qed

text \<open>
  C5 at a line of the default script's kind with blanks around it, at a line with two
  delimiters and at a line with none.
\<close>

theorem parseLine_title_body_witness:
  "title (parseLine (trim ''  Export instantly | Perfect for promos '')) = ''Export instantly''
   \<and> body (parseLine (trim ''  Export instantly | Perfect for promos ''))
       = Some ''Perfect for promos''
   \<and> body (parseLine (trim ''a | b |c'')) = Some ''b''
   \<and> title (parseLine (trim '' Welcome'')) = ''Welcome''
   \<and> body (parseLine (trim '' Welcome'')) = None"
  using parseLine_title_body [of _ "''  Export instantly | Perfect for promos ''"]
    parseLine_title_body [of _ "''a | b |c''"] parseLine_title_body [of _ "'' Welcome''"]
  by (simp add: before_first_def after_first_def segment_after_first_def trim_def is_white_def)

text \<open>
  C5 as stated fails on a line with two delimiters: for \<open>a|b|c\<close> the body is \<open>b\<close>,
  while the trimmed text after the first delimiter is \<open>b|c\<close>.
\<close>

theorem body_stops_at_second_delimiter:
  "CHR ''|'' \<in> set ''a|b|c''
   \<and> body (parseLine (trim ''a|b|c'')) = Some ''b''
   \<and> trim (after_first (CHR ''|'') ''a|b|c'') = ''b|c''
   \<and> body (parseLine (trim ''a|b|c'')) \<noteq> Some (trim (after_first (CHR ''|'') ''a|b|c''))"
  by (simp add: parseLine_def after_first_def trim_def is_white_def)

section \<open>Facts about the numbers\<close>

lemma roundEven_whole: "roundEven (of_int m) = m"
  by (simp add: roundEven_def)

lemma toDouble_scaled:
  assumes "x \<noteq> 0" and "max (binade x) (- 1022) - 52 = e" and "x / 2 powi e = of_int j"
    and "\<bar>x\<bar> < 2 ^ 1024"
  shows "toDouble x = Num x"
proof -
  have "x = of_int j * 2 powi e"
    using assms(3) by (simp add: field_simps)
  then have "of_int (roundEven (x / 2 powi e)) * 2 powi e = x"
    using assms(3) by (simp add: roundEven_whole)
  then show ?thesis
    using assms(1,2,4) by (simp add: toDouble_def Let_def)
qed

text \<open>Whole numbers up to \<open>2\<^sup>5\<^sup>3\<close> are doubles.\<close>

lemma toDouble_whole:
  assumes "0 \<le> m" and "m \<le> 2 ^ 53"
  shows "toDouble (of_int m) = Num (of_int m)"
proof (cases "m = 0")
  case True
  then show ?thesis by (simp add: toDouble_def)
next
  case False
  then have pos: "0 < m" using assms(1) by simp
  then have nz: "real_of_int m \<noteq> 0" by simp
  define b where "b = bitlen m - 1"
  have bin: "binade (of_int m) = b"
    using pos by (simp add: binade_def b_def)
  have bnd: "2 ^ nat b \<le> m" "m < 2 ^ nat (b + 1)"
    using bitlen_bounds [OF pos] by (simp_all add: b_def)
  have b0: "0 \<le> b"
    using pos bitlen_eq_zero_iff [of m] bitlen_nonneg [of m] by (simp add: b_def)
  have le: "(2::int) ^ nat b \<le> 2 ^ 53"
    using bnd(1) assms(2) by linarith
  have b53: "nat b \<le> 53"
    by (rule power_le_imp_le_exp [OF _ le]) simp
  have small: "\<bar>real_of_int m\<bar> < 2 ^ 1024"
  proof -
    have "real_of_int m \<le> 2 ^ 53"
      using assms(2) by (metis of_int_le_iff of_int_numeral of_int_power)
    also have "\<dots> < (2::real) ^ 1024"
      by simp
    finally show ?thesis using pos by simp
  qed
  show ?thesis
  proof (cases "b \<le> 52")
    case True
    define e where "e = b - 52"
    have e: "max (binade (of_int m)) (- 1022) - 52 = e"
      using b0 by (simp add: bin e_def)
    have "(2::real) powi e = 1 / 2 ^ nat (- e)"
      using True by (simp add: e_def power_int_def power_one_over)
    then have q: "real_of_int m / 2 powi e = of_int (m * 2 ^ nat (- e))"
      by simp
    show ?thesis
      by (rule toDouble_scaled [OF nz e q small])
  next
    case False
    then have b: "b = 53"
      using b53 b0 by linarith
    then have m: "m = 2 ^ 53"
      using bnd(1) assms(2) by simp
    have e: "max (binade (of_int m)) (- 1022) - 52 = 1"
      by (simp add: bin b)
    have q: "real_of_int m / 2 powi 1 = of_int (2 ^ 52)"
      by (simp add: m)
    show ?thesis
      by (rule toDouble_scaled [OF nz e q small])
  qed
qed

lemma jsSucc_safe: "0 \<le> k \<Longrightarrow> k < 2 ^ 53 \<Longrightarrow> jsSucc k = k + 1"
  using toDouble_whole [of "k + 1"] by (simp add: jsSucc_def)

lemma toDouble_not_NaN: "toDouble x \<noteq> NaN"
  by (simp add: toDouble_def Let_def)

lemma toDouble_nonneg:
  assumes "0 \<le> x" and "toDouble x = Num r"
  shows "0 \<le> r"
proof (cases "x = 0")
  case True
  then show ?thesis using assms by (simp add: toDouble_def)
next
  case False
  define e where "e = max (binade x) (- 1022) - 52"
  have "0 \<le> x / 2 powi e"
    using assms(1) by simp
  then have "0 \<le> roundEven (x / 2 powi e)"
    by (auto simp add: roundEven_def Let_def)
  then have "0 \<le> real_of_int (roundEven (x / 2 powi e)) * 2 powi e"
    by simp
  then show ?thesis
    using assms(2) False by (auto simp add: toDouble_def Let_def e_def split: if_splits)
qed

text \<open>\<open>Math.max(1, Math.round(\<dots>))\<close> is a whole number from 1 on, or \<open>Infinity\<close>.\<close>

lemma framesPerScene_cases:
  "framesPerScene d = PosInfinity \<or> (\<exists>f. 1 \<le> f \<and> framesPerScene d = Num (of_int f))"
proof -
  have a: "jsMul (toDouble d) (Num FPS) \<noteq> NaN"
    using toDouble_not_NaN [of d] toDouble_not_NaN
    by (cases "toDouble d") (simp_all add: FPS_def)
  show ?thesis
  proof (cases "jsMul (toDouble d) (Num FPS)")
    case (Num x)
    then have "framesPerScene d = Num (of_int (max 1 (round x)))"
      by (simp add: framesPerScene_def max_def)
    then show ?thesis by fastforce
  next
    case PosInfinity
    then show ?thesis by (simp add: framesPerScene_def)
  next
    case NegInfinity
    then have "framesPerScene d = Num (of_int 1)"
      by (simp add: framesPerScene_def)
    then show ?thesis by fastforce
  next
    case NaN
    then show ?thesis using a by simp
  qed
qed

lemma roundEven_ge_floor: "\<lfloor>y\<rfloor> \<le> roundEven y"
  by (simp add: roundEven_def Let_def)

lemma binade_ge1:
  assumes "1 \<le> x"
  shows "0 \<le> binade x" and "2 powi (binade x) \<le> x"
proof -
  have m: "0 < \<lfloor>x\<rfloor>"
    using assms by simp
  have b: "binade x = bitlen \<lfloor>x\<rfloor> - 1"
    using assms by (simp add: binade_def)
  have nn: "0 \<le> bitlen \<lfloor>x\<rfloor> - 1"
    using m bitlen_eq_zero_iff [of "\<lfloor>x\<rfloor>"] bitlen_nonneg [of "\<lfloor>x\<rfloor>"] by simp
  then show "0 \<le> binade x"
    by (simp add: b)
  have "2 ^ nat (bitlen \<lfloor>x\<rfloor> - 1) \<le> \<lfloor>x\<rfloor>"
    using bitlen_bounds [OF m] by simp
  then have "real_of_int (2 ^ nat (bitlen \<lfloor>x\<rfloor> - 1)) \<le> real_of_int \<lfloor>x\<rfloor>"
    by (simp only: of_int_le_iff)
  also have "\<dots> \<le> x"
    by simp
  finally have "2 ^ nat (bitlen \<lfloor>x\<rfloor> - 1) \<le> x"
    by simp
  then show "2 powi (binade x) \<le> x"
    using nn by (simp add: b power_int_def)
qed

text \<open>
  From 1 on, rounding to a double loses at most half of the value, and gives an
  infinity from \<open>2\<^sup>1\<^sup>0\<^sup>2\<^sup>4\<close> on.
\<close>

lemma toDouble_large:
  assumes "1 \<le> x"
  shows "toDouble x = PosInfinity
       \<or> (\<exists>r. toDouble x = Num r \<and> x / 2 \<le> r \<and> (2 ^ 1024 \<le> x \<longrightarrow> False))"
proof -
  define e where "e = binade x - 52"
  define y where "y = x / 2 powi e"
  define r where "r = real_of_int (roundEven y) * 2 powi e"
  have e: "max (binade x) (- 1022) - 52 = e"
    using binade_ge1(1) [OF assms] by (simp add: e_def)
  have pe: "0 < (2::real) powi e"
    by simp
  have xy: "x = y * 2 powi e"
    by (simp add: y_def)
  have "2 powi (e + 52) \<le> x"
    using binade_ge1(2) [OF assms] by (simp add: e_def)
  then have "2 ^ 52 * 2 powi e \<le> y * 2 powi e"
    using xy by (simp add: power_int_add mult.commute)
  then have y52: "2 ^ 52 \<le> y"
    using pe by simp
  have fl: "y - 1 < real_of_int \<lfloor>y\<rfloor>"
    by linarith
  have j: "real_of_int \<lfloor>y\<rfloor> \<le> real_of_int (roundEven y)"
    using roundEven_ge_floor [of y] by (simp only: of_int_le_iff)
  have y2: "2 \<le> y"
  proof -
    have "(2::real) \<le> 2 ^ 52" by simp
    then show ?thesis using y52 by linarith
  qed
  have "y / 2 \<le> real_of_int (roundEven y)"
    using fl j y2 by linarith
  then have "y / 2 * 2 powi e \<le> r"
    unfolding r_def using pe by (simp only: mult_le_cancel_right_pos)
  then have half: "x / 2 \<le> r"
    by (simp add: xy)
  have r0: "0 \<le> r"
    using half assms by linarith
  have td: "toDouble x = (if 2 ^ 1024 \<le> r then PosInfinity else Num r)"
    using assms r0 e by (simp add: toDouble_def Let_def r_def y_def)
  have big: "2 ^ 1024 \<le> r" if x: "2 ^ 1024 \<le> x"
  proof (cases "e \<le> 1024")
    case True
    define k :: int where "k = 2 ^ nat (1024 - e)"
    have kp: "real_of_int k * 2 powi e = 2 ^ 1024"
    proof -
      have a: "real_of_int k = 2 powi (1024 - e)"
        using True by (simp add: k_def power_int_def)
      have "(2::real) powi (1024 - e) * 2 powi e = 2 ^ 1024"
        using power_int_add [of "2::real" "1024 - e" e] by simp
      then show ?thesis
        by (simp only: a)
    qed
    have "real_of_int k * 2 powi e \<le> y * 2 powi e"
      using x xy kp by simp
    then have "real_of_int k \<le> y"
      using pe by simp
    then have "k \<le> \<lfloor>y\<rfloor>"
      by (simp add: le_floor_iff)
    then have "k \<le> roundEven y"
      using roundEven_ge_floor [of y] by linarith
    then have "real_of_int k \<le> real_of_int (roundEven y)"
      by (simp only: of_int_le_iff)
    then have "real_of_int k * 2 powi e \<le> r"
      unfolding r_def using pe by (simp only: mult_le_cancel_right_pos)
    then show ?thesis
      by (simp only: kp)
  next
    case False
    have "(2::real) powi 1024 \<le> 2 powi e"
      using False by (intro power_int_increasing) simp_all
    then have a: "(2::real) ^ 1024 \<le> 2 powi e"
      by simp
    have "1 \<le> real_of_int (roundEven y)"
      using \<open>y / 2 \<le> real_of_int (roundEven y)\<close> y2 by linarith
    then have "1 * 2 powi e \<le> r"
      unfolding r_def using pe by (simp only: mult_le_cancel_right_pos)
    then show ?thesis
      using a by linarith
  qed
  show ?thesis
  proof (cases "2 ^ 1024 \<le> r")
    case True
    then show ?thesis by (simp add: td)
  next
    case False
    then have "\<not> 2 ^ 1024 \<le> x"
      using big by blast
    then show ?thesis
      using False half by (simp add: td)
  qed
qed

text \<open>From \<open>2\<^sup>1\<^sup>0\<^sup>2\<^sup>1\<close> seconds on, both frame counts are \<open>Infinity\<close>.\<close>

lemma framesPerScene_overflow:
  assumes "2 ^ 1021 \<le> d"
  shows "framesPerScene d = PosInfinity" and "0 < n \<Longrightarrow> totalFrames d n = PosInfinity"
proof -
  have d1: "1 \<le> d"
  proof -
    have "(1::real) \<le> 2 ^ 1021" by simp
    then show ?thesis using assms by linarith
  qed
  have "jsMul (toDouble d) (Num FPS) = PosInfinity"
  proof (cases "toDouble d = PosInfinity")
    case True
    then show ?thesis by (simp add: FPS_def)
  next
    case False
    then obtain r where r: "toDouble d = Num r" "d / 2 \<le> r"
      using toDouble_large [OF d1] by blast
    have "(2::real) ^ 1024 = 2 ^ 1021 / 2 * 16"
      by simp
    also have "\<dots> \<le> d / 2 * 16"
      using assms by (simp only: mult_le_cancel_right_pos divide_le_cancel) simp
    also have "\<dots> \<le> r * 30"
      using r(2) d1 by linarith
    finally have big: "2 ^ 1024 \<le> r * 30" .
    have "(1::real) \<le> 2 ^ 1024" by simp
    then have "1 \<le> r * 30" using big by linarith
    then have "toDouble (r * 30) = PosInfinity"
      using toDouble_large [of "r * 30"] big by blast
    then show ?thesis
      by (simp add: r(1) FPS_def)
  qed
  then show f: "framesPerScene d = PosInfinity"
    by (simp add: framesPerScene_def)
  show "0 < n \<Longrightarrow> totalFrames d n = PosInfinity"
    by (simp add: totalFrames_def f)
qed

lemma huge_duration:
  "framesPerScene (10 ^ 308) = PosInfinity" "totalFrames (10 ^ 308) 2 = PosInfinity"
proof -
  have "(2::real) ^ 1021 \<le> 10 ^ 308"
    by simp
  then show "framesPerScene (10 ^ 308) = PosInfinity" "totalFrames (10 ^ 308) 2 = PosInfinity"
    using framesPerScene_overflow(1) [of "10 ^ 308"] framesPerScene_overflow(2) [of "10 ^ 308" 2]
    by simp_all
qed

text \<open>
  The product is rounded before \<open>Math.round\<close> sees it: \<open>2.05 * 30\<close> is the double
  just below 61.5, and \<open>0.35 * 30\<close> is the double 10.5. At \<open>2\<^sup>5\<^sup>3\<close> the counter stays
  where it is.
\<close>

lemmas number_eval = framesPerScene_def totalFrames_def FPS_def toDouble_def binade_def
  roundEven_def Let_def compute_bitlen round_def

lemma rounding_examples:
  "framesPerScene (205 / 100) = Num 61" "framesPerScene (35 / 100) = Num 11"
  by (simp_all add: number_eval)

lemma counter_stalls: "jsSucc (2 ^ 53) = 2 ^ 53"
  by (simp add: jsSucc_def number_eval)

lemma sample_frames: "framesPerScene 4 = Num 120"
  using toDouble_whole [of 4] toDouble_whole [of 120]
  by (simp add: framesPerScene_def FPS_def)

lemma sample_total: "totalFrames 4 2 = Num 240"
  using toDouble_whole [of 240] by (simp add: totalFrames_def sample_frames)

section \<open>Facts about the timeline\<close>

lemma fadeSpanOf_ge6: "6 \<le> fadeSpanOf fps"
  by (simp add: fadeSpanOf_def)

lemma fadeSpanOf_twice: "12 \<le> fps \<longleftrightarrow> 2 * fadeSpanOf fps \<le> fps"
  unfolding fadeSpanOf_def by (cases "fps < 36") auto

lemma opacityOf_fade_in:
  "0 \<le> fws \<Longrightarrow> fws < fadeSpanOf fps \<Longrightarrow>
     0 \<le> opacityOf fps fws \<and> opacityOf fps fws < 1"
  using fadeSpanOf_ge6 [of fps] by (simp add: opacityOf_def)

lemma opacityOf_fade_out:
  "\<not> fws < fadeSpanOf fps \<Longrightarrow> fps - fadeSpanOf fps < fws \<Longrightarrow>
     0 \<le> opacityOf fps fws \<and> opacityOf fps fws < 1"
  using fadeSpanOf_ge6 [of fps] by (simp add: opacityOf_def)

lemma opacityOf_hold:
  "\<not> fws < fadeSpanOf fps \<Longrightarrow> \<not> fps - fadeSpanOf fps < fws \<Longrightarrow> opacityOf fps fws = 1"
  by (simp add: opacityOf_def)

lemma timelineStep_sel:
  "opacity (timelineStep n fps cf) = opacityOf fps (cf mod fps)"
  "frameWithinScene (timelineStep n fps cf) = cf mod fps"
  "fadeSpan (timelineStep n fps cf) = fadeSpanOf fps"
  "sceneIndex (timelineStep n fps cf) = min (int n - 1) (cf div fps)"
  "overallProgress (timelineStep n fps cf) = of_int cf / of_int (fps * int n)"
  by (simp_all add: timelineStep_def Let_def)

text \<open>
  C1, as the code has it. The script \<open>A|one\<newline>B|two\<close> with a scene duration of 4
  seconds gives exactly 2 scenes, 120 frames per scene and 240 frames in all; the step
  computes scene 0 and opacity 0 at frame 0, scene 0 at frame 119 and scene 1 at frame
  120. At frame 119 the opacity is 1/20: the frame is the last of the fade-out, which
  runs over frames 101 to 119.
\<close>

theorem scenario_two_scenes:
  "scenes ''A|one\<newline>B|two''
     = [\<lparr>title = ''A'', body = Some ''one''\<rparr>, \<lparr>title = ''B'', body = Some ''two''\<rparr>]
   \<and> length (scenes ''A|one\<newline>B|two'') = 2
   \<and> framesPerScene 4 = Num 120
   \<and> totalFrames 4 (length (scenes ''A|one\<newline>B|two'')) = Num 240
   \<and> sceneIndex (timelineStep 2 120 0) = 0
   \<and> opacity (timelineStep 2 120 0) = 0
   \<and> sceneIndex (timelineStep 2 120 119) = 0
   \<and> opacity (timelineStep 2 120 119) = 1 / 20
   \<and> sceneIndex (timelineStep 2 120 120) = 1"
proof -
  have s: "scenes ''A|one\<newline>B|two''
      = [\<lparr>title = ''A'', body = Some ''one''\<rparr>, \<lparr>title = ''B'', body = Some ''two''\<rparr>]"
    by (simp add: scenes_def parseLine_def trim_def is_white_def)
  have l: "length (scenes ''A|one\<newline>B|two'') = 2"
    by (simp add: s)
  have t: "totalFrames 4 (length (scenes ''A|one\<newline>B|two'')) = Num 240"
    by (simp only: l sample_total)
  have "sceneIndex (timelineStep 2 120 0) = 0
      \<and> opacity (timelineStep 2 120 0) = 0
      \<and> sceneIndex (timelineStep 2 120 119) = 0
      \<and> opacity (timelineStep 2 120 119) = 1 / 20
      \<and> sceneIndex (timelineStep 2 120 120) = 1"
    by (simp add: timelineStep_def opacityOf_def fadeSpanOf_def)
  then show ?thesis
    using s l sample_frames t by blast
qed

text \<open>
  C1 as stated fails at frame 119: with 2 scenes of 120 frames the opacity there is 1/20,
  at distance 19/20 from 1.
\<close>

theorem scenario_frame_119_opacity:
  "length (scenes ''A|one\<newline>B|two'') = 2 \<and> framesPerScene 4 = Num 120
   \<and> opacity (timelineStep 2 120 119) = 1 / 20
   \<and> \<bar>opacity (timelineStep 2 120 119) - 1\<bar> = 19 / 20"
proof -
  have s: "length (scenes ''A|one\<newline>B|two'') = 2"
    by (simp add: scenes_def parseLine_def trim_def is_white_def)
  show ?thesis
    by (simp add: s sample_frames timelineStep_def opacityOf_def fadeSpanOf_def)
qed

text \<open>
  C2, as the code has it. For every scene count, every \<open>framesPerScene \<ge> 1\<close> and every
  frame, with \<open>fadeSpan = max 6 (framesPerScene div 6)\<close>: the opacity is 0 at
  \<open>frameWithinScene = 0\<close>; and when \<open>framesPerScene \<ge> 12\<close> (the two fade windows then
  do not overlap) it is 1 at \<open>frameWithinScene = fadeSpan\<close>, and over the last
  \<open>fadeSpan\<close> frames of the scene it is
  \<open>(framesPerScene - frameWithinScene) / fadeSpan\<close> clamped to at least 0, the mirror
  image of the fade-in.
\<close>

theorem opacity_profile:
  assumes "1 \<le> fps" and "0 \<le> cf"
  shows "(frameWithinScene (timelineStep n fps cf) = 0
            \<longrightarrow> opacity (timelineStep n fps cf) = 0)
       \<and> (12 \<le> fps \<and> frameWithinScene (timelineStep n fps cf) = fadeSpan (timelineStep n fps cf)
            \<longrightarrow> opacity (timelineStep n fps cf) = 1)
       \<and> (12 \<le> fps \<and> fps - fadeSpan (timelineStep n fps cf) \<le> frameWithinScene (timelineStep n fps cf)
            \<longrightarrow> opacity (timelineStep n fps cf)
                = max 0 (of_int (fps - frameWithinScene (timelineStep n fps cf))
                          / of_int (fadeSpan (timelineStep n fps cf))))"
proof -
  define fws where "fws = cf mod fps"
  have a: "fws = 0 \<longrightarrow> opacityOf fps fws = 0"
    using fadeSpanOf_ge6 [of fps] by (simp add: opacityOf_def)
  have b: "12 \<le> fps \<and> fws = fadeSpanOf fps \<longrightarrow> opacityOf fps fws = 1"
    using fadeSpanOf_twice [of fps] by (auto simp add: opacityOf_def)
  have c: "12 \<le> fps \<and> fps - fadeSpanOf fps \<le> fws
      \<longrightarrow> opacityOf fps fws = max 0 (of_int (fps - fws) / of_int (fadeSpanOf fps))"
  proof (intro impI, elim conjE)
    assume h: "12 \<le> fps" "fps - fadeSpanOf fps \<le> fws"
    have nf: "\<not> fws < fadeSpanOf fps"
      using h fadeSpanOf_twice [of fps] by linarith
    show "opacityOf fps fws = max 0 (of_int (fps - fws) / of_int (fadeSpanOf fps))"
    proof (cases "fps - fadeSpanOf fps < fws")
      case True
      then show ?thesis
        using nf by (simp add: opacityOf_def)
    next
      case False
      then have "fws = fps - fadeSpanOf fps"
        using h by linarith
      then show ?thesis
        using nf False fadeSpanOf_ge6 [of fps] by (simp add: opacityOf_def)
    qed
  qed
  show ?thesis
    using a b c by (simp add: timelineStep_sel fws_def)
qed

text \<open>
  C2 at scenes of 120 frames (\<open>fadeSpan = 20\<close>): frame 120 opens the second scene, frame
  20 ends the fade-in, frames 100 and 110 lie in the last 20 frames of the first scene.
\<close>

theorem opacity_profile_witness:
  "(1::int) \<le> 120 \<and> (12::int) \<le> 120
   \<and> opacity (timelineStep 2 120 120) = 0 \<and> opacity (timelineStep 2 120 20) = 1
   \<and> opacity (timelineStep 2 120 100) = 1 \<and> opacity (timelineStep 2 120 110) = 1 / 2"
  using opacity_profile [of 120 120 2] opacity_profile [of 120 20 2]
    opacity_profile [of 120 100 2] opacity_profile [of 120 110 2]
  by (simp add: timelineStep_def opacityOf_def fadeSpanOf_def)

text \<open>
  C2 as stated fails for a short scene: with 10 frames per scene \<open>fadeSpan\<close> is 6, and
  at \<open>frameWithinScene = fadeSpan = 6\<close> the frame is already in the fade-out window
  (\<open>6 > 10 - 6\<close>), where the opacity is 4/6.
\<close>

theorem opacity_at_fadeSpan_short_scene:
  "frameWithinScene (timelineStep 1 10 6) = fadeSpan (timelineStep 1 10 6)
   \<and> opacity (timelineStep 1 10 6) = 2 / 3
   \<and> opacity (timelineStep 1 10 6) \<noteq> 1"
  by (simp add: timelineStep_def opacityOf_def fadeSpanOf_def)

text \<open>
  C10. For every frame counter from 0 on and every \<open>framesPerScene \<ge> 1\<close>, the opacity
  computed by the timeline step lies in the closed interval from 0 to 1: in the fade-in
  branch it is at least 0 and strictly below 1, in the fade-out branch it is at least 0
  and strictly below 1, and in the hold branch it is exactly 1. So the canvas accepts it
  as \<open>globalAlpha\<close> when the scene renderer assigns it.
\<close>

theorem opacity_unit_interval:
  assumes "1 \<le> fps" and "0 \<le> cf"
  shows "0 \<le> opacity (timelineStep n fps cf)
       \<and> opacity (timelineStep n fps cf) \<le> 1
       \<and> (frameWithinScene (timelineStep n fps cf) < fadeSpan (timelineStep n fps cf)
            \<longrightarrow> opacity (timelineStep n fps cf) < 1)
       \<and> (\<not> frameWithinScene (timelineStep n fps cf) < fadeSpan (timelineStep n fps cf)
            \<and> fps - fadeSpan (timelineStep n fps cf) < frameWithinScene (timelineStep n fps cf)
            \<longrightarrow> opacity (timelineStep n fps cf) < 1)
       \<and> (\<not> frameWithinScene (timelineStep n fps cf) < fadeSpan (timelineStep n fps cf)
            \<and> \<not> fps - fadeSpan (timelineStep n fps cf) < frameWithinScene (timelineStep n fps cf)
            \<longrightarrow> opacity (timelineStep n fps cf) = 1)
       \<and> globalAlpha (paint (setGlobalAlpha (opacity (timelineStep n fps cf)) c))
           = opacity (timelineStep n fps cf)"
proof -
  define fws where "fws = cf mod fps"
  have fws0: "0 \<le> fws"
    using assms by (simp add: fws_def)
  consider (fade_in) "fws < fadeSpanOf fps"
    | (fade_out) "\<not> fws < fadeSpanOf fps" "fps - fadeSpanOf fps < fws"
    | (hold) "\<not> fws < fadeSpanOf fps" "\<not> fps - fadeSpanOf fps < fws"
    by blast
  then have "0 \<le> opacityOf fps fws \<and> opacityOf fps fws \<le> 1
       \<and> (fws < fadeSpanOf fps \<longrightarrow> opacityOf fps fws < 1)
       \<and> (\<not> fws < fadeSpanOf fps \<and> fps - fadeSpanOf fps < fws \<longrightarrow> opacityOf fps fws < 1)
       \<and> (\<not> fws < fadeSpanOf fps \<and> \<not> fps - fadeSpanOf fps < fws \<longrightarrow> opacityOf fps fws = 1)"
  proof cases
    case fade_in
    then show ?thesis
      using opacityOf_fade_in [OF fws0 fade_in] by simp
  next
    case fade_out
    then show ?thesis
      using opacityOf_fade_out [OF fade_out] by simp
  next
    case hold
    then show ?thesis
      using opacityOf_hold [OF hold] by simp
  qed
  then show ?thesis
    by (simp add: timelineStep_sel fws_def setGlobalAlpha_def)
qed

text \<open>
  C10 at scenes of 120 frames: frame 7 is in the fade-in, frame 119 in the fade-out,
  frame 60 in the hold.
\<close>

theorem opacity_unit_interval_witness:
  "(1::int) \<le> 120 \<and> (0::int) \<le> 119
   \<and> 0 \<le> opacity (timelineStep 2 120 119) \<and> opacity (timelineStep 2 120 119) \<le> 1
   \<and> opacity (timelineStep 2 120 119) = 1 / 20
   \<and> opacity (timelineStep 2 120 7) = 7 / 20
   \<and> opacity (timelineStep 2 120 60) = 1"
  using opacity_unit_interval [of 120 119 2] opacity_unit_interval [of 120 7 2]
    opacity_unit_interval [of 120 60 2]
  by (simp add: timelineStep_def opacityOf_def fadeSpanOf_def)

section \<open>Facts about the text layout\<close>

lemma wrapLoop_Nil: "wrapLoop m W st [] = st"
  by (simp add: wrapLoop_def)

lemma wrapLoop_Cons: "wrapLoop m W st (w # ws) = wrapLoop m W (wrapStep m W st w) ws"
  by (simp add: wrapLoop_def)

lemma wrapLoop_snoc: "wrapLoop m W st (ws @ [w]) = wrapStep m W (wrapLoop m W st ws) w"
  by (simp add: wrapLoop_def)

lemma wrapLines_all_lines:
  "wrapLines m W text = all_lines (wrapLoop m W ([], []) (split_on (CHR '' '') text))"
  by (simp add: wrapLines_def all_lines_def Let_def)

lemma wrapStep_cases:
  "wrapStep m W (ls, cur) w =
     (if cur = [] then (ls, w)
      else if m (cur @ '' '' @ w) > W then (ls @ [cur], w)
      else (ls, cur @ '' '' @ w))"
  by (simp add: wrapStep_def Let_def)

lemma split_on_pieces_no_sep: "w \<in> set (split_on d s) \<Longrightarrow> d \<notin> set w"
proof (induction s arbitrary: w)
  case Nil
  then show ?case by simp
next
  case (Cons c cs)
  obtain x xs where r: "split_on d cs = x # xs"
    using split_on_not_Nil [of d cs] by (cases "split_on d cs") auto
  show ?case
  proof (cases "c = d")
    case True
    then show ?thesis using Cons by auto
  next
    case False
    then have "w = c # x \<or> w \<in> set xs" using Cons.prems r by simp
    then show ?thesis
      using Cons.IH [of x] Cons.IH [of w] r False by auto
  qed
qed

lemma split_on_append_sep:
  "split_on d (a @ d # b) = split_on d a @ split_on d b"
proof (induction a)
  case Nil
  then show ?case by simp
next
  case (Cons x xs)
  then show ?case
    using split_on_not_Nil [of d xs] by (cases "split_on d xs") auto
qed

lemma join_spaces_Cons: "ls \<noteq> [] \<Longrightarrow> join_spaces (l # ls) = l @ '' '' @ join_spaces ls"
  by (cases ls) auto

lemma join_spaces_push: "join_spaces ((c # x) # xs) = c # join_spaces (x # xs)"
  by (cases xs) auto

lemma join_split_on: "join_spaces (split_on (CHR '' '') t) = t"
proof (induction t)
  case Nil
  then show ?case by simp
next
  case (Cons c cs)
  obtain x xs where r: "split_on (CHR '' '') cs = x # xs"
    using split_on_not_Nil [of "CHR '' ''" cs] by (cases "split_on (CHR '' '') cs") auto
  show ?case
  proof (cases "c = CHR '' ''")
    case True
    then show ?thesis using Cons r by simp
  next
    case False
    then show ?thesis using Cons r by (simp add: join_spaces_push)
  qed
qed

lemma join_spaces_merge:
  "join_spaces (xs @ (a @ '' '' @ b) # ys) = join_spaces (xs @ a # b # ys)"
proof (induction xs)
  case Nil
  then show ?case by (cases ys) auto
next
  case (Cons x xs)
  then show ?case by (simp add: join_spaces_Cons)
qed

lemma join_wrapStep:
  assumes "w \<noteq> []"
  shows "join_spaces (all_lines (wrapStep m W st w) @ ws) = join_spaces (all_lines st @ w # ws)"
proof -
  obtain ls cur where st: "st = (ls, cur)" by (cases st)
  show ?thesis
    using assms join_spaces_merge [of ls cur w ws]
    by (simp add: st wrapStep_cases all_lines_def)
qed

lemma join_wrapLoop:
  "\<forall>w\<in>set ws. w \<noteq> [] \<Longrightarrow>
     join_spaces (all_lines (wrapLoop m W st ws)) = join_spaces (all_lines st @ ws)"
proof (induction ws arbitrary: st)
  case Nil
  then show ?case by (simp add: wrapLoop_Nil)
next
  case (Cons w ws)
  then show ?case
    using join_wrapStep [of w m W st ws] by (simp add: wrapLoop_Cons)
qed

lemma words_of_Nil: "words_of [] = []"
  by (simp add: words_of_def)

lemma words_of_append: "words_of (xs @ ys) = words_of xs @ words_of ys"
  by (simp add: words_of_def)

lemma words_of_word: "CHR '' '' \<notin> set w \<Longrightarrow> words_of [w] = (if w = [] then [] else [w])"
  by (simp add: words_of_def split_on_no_sep)

lemma words_of_glued:
  "CHR '' '' \<notin> set w \<Longrightarrow> words_of [cur @ '' '' @ w] = words_of [cur] @ words_of [w]"
  using split_on_append_sep [of "CHR '' ''" cur w]
  by (simp add: words_of_def split_on_no_sep)

lemma words_wrapStep:
  assumes "CHR '' '' \<notin> set w"
  shows "words_of (all_lines (wrapStep m W st w)) = words_of (all_lines st) @ words_of [w]"
proof -
  obtain ls cur where st: "st = (ls, cur)" by (cases st)
  show ?thesis
    using assms words_of_glued [OF assms, of cur] words_of_word [OF assms]
    by (auto simp add: st wrapStep_cases all_lines_def words_of_append words_of_Nil)
qed

lemma words_wrapLoop:
  "\<forall>w\<in>set ws. CHR '' '' \<notin> set w \<Longrightarrow>
     words_of (all_lines (wrapLoop m W st ws)) = words_of (all_lines st) @ filter (\<lambda>w. w \<noteq> []) ws"
proof (induction ws arbitrary: st)
  case Nil
  then show ?case by (simp add: wrapLoop_Nil)
next
  case (Cons w ws)
  then show ?case
    using words_wrapStep [of w m W st] words_of_word [of w]
    by (auto simp add: wrapLoop_Cons words_of_Nil)
qed

lemma words_wrapLines:
  "words_of (wrapLines m W text) = filter (\<lambda>w. w \<noteq> []) (split_on (CHR '' '') text)"
  using words_wrapLoop [of "split_on (CHR '' '') text" m W "([], [])"] split_on_pieces_no_sep
  by (auto simp add: wrapLines_all_lines all_lines_def words_of_def)

lemma rewrap_word:
  "CHR '' '' \<notin> set w \<Longrightarrow> wrapLoop m W ([], []) (split_on (CHR '' '') w) = ([], w)"
  by (simp add: split_on_no_sep wrapLoop_Cons wrapLoop_Nil wrapStep_cases)

lemma rebuilt_word: "CHR '' '' \<notin> set w \<Longrightarrow> rebuilt m W w"
  by (simp add: rebuilt_def rewrap_word)

lemma rebuilt_glued:
  assumes "CHR '' '' \<notin> set w" and "rebuilt m W cur" and "cur \<noteq> []"
    and "\<not> m (cur @ '' '' @ w) > W"
  shows "rebuilt m W (cur @ '' '' @ w)"
proof -
  have "split_on (CHR '' '') (cur @ '' '' @ w) = split_on (CHR '' '') cur @ [w]"
    using split_on_append_sep [of "CHR '' ''" cur w] assms(1) by (simp add: split_on_no_sep)
  then show ?thesis
    using assms by (simp add: rebuilt_def wrapLoop_snoc wrapStep_cases)
qed

lemma rebuilt_line: "rebuilt m W l \<Longrightarrow> l \<noteq> [] \<Longrightarrow> wrapLines m W l = [l]"
  by (simp add: wrapLines_def rebuilt_def Let_def)

lemma rewrap_wrapStep:
  assumes "CHR '' '' \<notin> set w" and "rebuilt m W (snd st)"
    and "\<forall>l\<in>set (fst st). wrapLines m W l = [l]"
  shows "rebuilt m W (snd (wrapStep m W st w))
       \<and> (\<forall>l\<in>set (fst (wrapStep m W st w)). wrapLines m W l = [l])"
proof -
  obtain ls cur where st: "st = (ls, cur)" by (cases st)
  consider (fresh) "cur = []"
    | (break) "cur \<noteq> []" "m (cur @ '' '' @ w) > W"
    | (glue) "cur \<noteq> []" "\<not> m (cur @ '' '' @ w) > W"
    by blast
  then show ?thesis
  proof cases
    case fresh
    then show ?thesis
      using assms rebuilt_word [OF assms(1)] by (simp add: st wrapStep_cases)
  next
    case break
    then show ?thesis
      using assms rebuilt_word [OF assms(1)] rebuilt_line [of m W cur]
      by (simp add: st wrapStep_cases)
  next
    case glue
    then show ?thesis
      using assms rebuilt_glued [OF assms(1), of m W cur] by (simp add: st wrapStep_cases)
  qed
qed

lemma rewrap_wrapLoop:
  "\<forall>w\<in>set ws. CHR '' '' \<notin> set w \<Longrightarrow> rebuilt m W (snd st) \<Longrightarrow>
   \<forall>l\<in>set (fst st). wrapLines m W l = [l] \<Longrightarrow>
     rebuilt m W (snd (wrapLoop m W st ws))
     \<and> (\<forall>l\<in>set (fst (wrapLoop m W st ws)). wrapLines m W l = [l])"
proof (induction ws arbitrary: st)
  case Nil
  then show ?case by (simp add: wrapLoop_Nil)
next
  case (Cons w ws)
  have "rebuilt m W (snd (wrapStep m W st w))
       \<and> (\<forall>l\<in>set (fst (wrapStep m W st w)). wrapLines m W l = [l])"
    using rewrap_wrapStep [of w m W st] Cons.prems by simp
  then show ?case
    using Cons.IH [of "wrapStep m W st w"] Cons.prems(1) by (simp add: wrapLoop_Cons)
qed

lemma rewrap_lines: "l \<in> set (wrapLines m W text) \<Longrightarrow> wrapLines m W l = [l]"
proof -
  assume l: "l \<in> set (wrapLines m W text)"
  define final where "final = wrapLoop m W ([], []) (split_on (CHR '' '') text)"
  have "rebuilt m W []"
    by (simp add: rebuilt_def wrapLoop_Cons wrapLoop_Nil wrapStep_cases)
  then have inv: "rebuilt m W (snd final) \<and> (\<forall>l\<in>set (fst final). wrapLines m W l = [l])"
    unfolding final_def
    using rewrap_wrapLoop [of "split_on (CHR '' '') text" m W "([], [])"] split_on_pieces_no_sep
    by auto
  have "l \<in> set (fst final) \<or> (l = snd final \<and> snd final \<noteq> [])"
    using l by (auto simp add: wrapLines_def final_def Let_def split: if_splits)
  then show ?thesis
    using inv rebuilt_line by blast
qed

lemma sum_rewrapped:
  "\<forall>line\<in>set ls. wrapLines m W line = [line] \<Longrightarrow>
     sum_list (map (\<lambda>line. length (wrapLines m W line)) ls) = length ls"
  by (induction ls) auto

text \<open>
  C4. For every text, maximum width and measurement function, wrapping any line of the
  output again, with the same maximum width, gives that line unchanged as a single
  line; so the line counts of the re-wrapped lines add up to the original line count.
\<close>

theorem wrap_idempotent:
  "(\<forall>line\<in>set (wrapLines m W text). wrapLines m W line = [line])
   \<and> sum_list (map (\<lambda>line. length (wrapLines m W line)) (wrapLines m W text))
       = length (wrapLines m W text)"
proof -
  have a: "\<forall>line\<in>set (wrapLines m W text). wrapLines m W line = [line]"
    using rewrap_lines by blast
  then show ?thesis
    using sum_rewrapped [of "wrapLines m W text" m W] by blast
qed

text \<open>
  C4 on a text that wraps into two lines at a width of 5 characters, and on a text with
  a double space.
\<close>

theorem wrap_idempotent_witness:
  "wrapLines charCount 5 ''aa bb cc'' = [''aa bb'', ''cc'']
   \<and> wrapLines charCount 5 ''aa bb'' = [''aa bb'']
   \<and> wrapLines charCount 5 ''cc'' = [''cc'']
   \<and> wrapLines charCount 4 ''a  b c'' = [''a  b'', ''c'']
   \<and> wrapLines charCount 4 ''a  b'' = [''a  b'']"
  using wrap_idempotent [of charCount 5 "''aa bb cc''"]
    wrap_idempotent [of charCount 4 "''a  b c''"]
  by (simp add: wrapLines_def wrapLoop_def wrapStep_def charCount_def Let_def)

text \<open>
  C3, as the code has it. For every text, maximum width and measurement function, the
  non-empty words of the output lines are the non-empty words of the text, in order: no
  line break falls inside a word, and a word wider than the maximum width is kept whole.
  When the text is single-spaced, joining the lines with single spaces gives the text
  back exactly.
\<close>

theorem wrap_keeps_words:
  "words_of (wrapLines m W text) = filter (\<lambda>w. w \<noteq> []) (split_on (CHR '' '') text)
   \<and> (single_spaced text \<longrightarrow> join_spaces (wrapLines m W text) = text)"
proof -
  have "join_spaces (wrapLines m W text) = text" if "single_spaced text"
  proof (cases "text = []")
    case True
    then show ?thesis
      by (simp add: wrapLines_def wrapLoop_Cons wrapLoop_Nil wrapStep_cases Let_def)
  next
    case False
    then have "\<forall>w\<in>set (split_on (CHR '' '') text). w \<noteq> []"
      using that by (simp add: single_spaced_def)
    then show ?thesis
      using join_wrapLoop [of "split_on (CHR '' '') text" m W "([], [])"]
      by (simp add: wrapLines_all_lines all_lines_def join_split_on)
  qed
  then show ?thesis
    using words_wrapLines by blast
qed

text \<open>
  C3 on a single-spaced text whose first word is wider than the maximum width of 3
  characters.
\<close>

theorem wrap_keeps_words_witness:
  "single_spaced ''abcdefg hi j''
   \<and> wrapLines charCount 3 ''abcdefg hi j'' = [''abcdefg'', ''hi'', ''j'']
   \<and> join_spaces (wrapLines charCount 3 ''abcdefg hi j'') = ''abcdefg hi j''
   \<and> words_of (wrapLines charCount 3 ''abcdefg hi j'') = [''abcdefg'', ''hi'', ''j'']"
  using wrap_keeps_words [of charCount 3 "''abcdefg hi j''"]
  by (simp add: single_spaced_def wrapLines_def wrapLoop_def wrapStep_def charCount_def
      words_of_def Let_def)

text \<open>
  C3 as stated fails on a text with two spaces in a row: at a maximum width of one
  character the text \<open>a  b\<close> wraps into the lines \<open>a\<close> and \<open>b\<close> (the empty word between
  the two spaces opens a line that the next word then replaces), and joining them with a
  single space gives \<open>a b\<close>.
\<close>

theorem wrap_double_space_lost:
  "wrapLines charCount 1 ''a  b'' = [''a'', ''b'']
   \<and> join_spaces (wrapLines charCount 1 ''a  b'') = ''a b''
   \<and> join_spaces (wrapLines charCount 1 ''a  b'') \<noteq> ''a  b''"
  by (simp add: wrapLines_def wrapLoop_def wrapStep_def charCount_def Let_def)

section \<open>Facts about painting\<close>

lemma frame_set [simp]:
  "stack (setGlobalAlpha a c) = stack c" "stack (setFillStyle f c) = stack c"
  "stack (setFont fo c) = stack c" "stack (setTextAlign al c) = stack c"
  "stack (setTextBaseline b c) = stack c" "stack (draw d c) = stack c"
  "stack (save c) = paint c # stack c" "paint (draw d c) = paint c"
  by (simp_all add: setGlobalAlpha_def setFillStyle_def setFont_def setTextAlign_def
      setTextBaseline_def draw_def save_def)

lemma restore_pop:
  "stack c = p # ps \<Longrightarrow> paint (restore c) = p \<and> stack (restore c) = ps \<and> calls (restore c) = calls c"
  by (simp add: restore_def)

lemma fillLines_frame:
  "paint (fillLines c ls x y h) = paint c \<and> stack (fillLines c ls x y h) = stack c"
  by (induction ls arbitrary: c y) simp_all

lemma wrapText_frame:
  "paint (wrapText env c text x y w) = paint c \<and> stack (wrapText env c text x y w) = stack c"
  by (simp add: wrapText_def Let_def fillLines_frame)

lemma sceneAt_clamped:
  assumes "scs \<noteq> []" and "1 \<le> fps" and "0 \<le> cf"
  shows "\<exists>sc. sceneAt scs (sceneIndex (timelineStep (length scs) fps cf)) = Some sc"
proof -
  have "0 \<le> cf div fps"
    using assms by (simp add: pos_imp_zdiv_nonneg_iff)
  moreover have "0 < length scs"
    using assms by simp
  ultimately show ?thesis
    by (simp add: sceneAt_def timelineStep_sel)
qed

lemma drawScene_bracket:
  "\<exists>c'. drawScene env st c (Some sc) alpha offset = Inr c' \<and> paint c' = paint c \<and> stack c' = stack c"
proof -
  define c6 where "c6 = setFont ''700 72px 'Inter', 'Segoe UI', sans-serif''
      (setTextBaseline ''middle'' (setTextAlign ''center''
        (setFillStyle (Color (primaryColor st)) (setGlobalAlpha alpha (save c)))))"
  define c7 where "c7 = wrapText env c6 (title sc) (CANVAS_WIDTH / 2)
      (CANVAS_HEIGHT / 2 - 80 + offset) 920"
  define c8 where "c8 = (case body sc of None \<Rightarrow> c7
      | Some b \<Rightarrow> if b = [] then c7
          else wrapText env (setFont ''500 42px 'Inter', 'Segoe UI', sans-serif''
                 (setFillStyle (Color (accentColor st)) c7))
                 b (CANVAS_WIDTH / 2) (CANVAS_HEIGHT / 2 + 60 + offset) 900)"
  have s6: "stack c6 = paint c # stack c"
    by (simp add: c6_def)
  have s7: "stack c7 = paint c # stack c"
    by (simp add: c7_def wrapText_frame s6)
  have s8: "stack c8 = paint c # stack c"
    by (simp add: c8_def wrapText_frame s7 split: option.splits)
  have "drawScene env st c (Some sc) alpha offset = Inr (restore c8)"
    unfolding c8_def c7_def c6_def drawScene_def Let_def by simp
  then show ?thesis
    using restore_pop [OF s8] by simp
qed

lemma drawTrack_bracket: "paint (drawTrack c) = paint c \<and> stack (drawTrack c) = stack c"
  using restore_pop [of "draw (FillRect timelineX timelineY timelineWidth timelineHeight)
       (setFillStyle (Color ''#0f172a'') (setGlobalAlpha (35 / 100) (save c)))" "paint c" "stack c"]
  by (simp add: drawTrack_def)

lemma drawFill_bracket:
  "paint (drawFill st progress c) = paint c \<and> stack (drawFill st progress c) = stack c"
  using restore_pop [of "draw (FillRect timelineX timelineY (timelineWidth * progress) timelineHeight)
       (setFillStyle (Color (accentColor st)) (setGlobalAlpha (85 / 100) (save c)))" "paint c" "stack c"]
  by (simp add: drawFill_def)

lemma drawCaption_bracket:
  "paint (drawCaption st idx sc c) = paint c \<and> stack (drawCaption st idx sc c) = stack c"
  using restore_pop [of "draw (FillText (''Scene '' @ showInt (idx + 1) @ '' - '' @ title sc)
                      (CANVAS_WIDTH / 2) (CANVAS_HEIGHT - 110))
       (setTextAlign ''center''
         (setFont ''500 28px 'Inter', 'Segoe UI', sans-serif''
           (setFillStyle (Color (primaryColor st)) (setGlobalAlpha (6 / 10) (save c)))))" "paint c" "stack c"]
  by (simp add: drawCaption_def)

lemma drawBlob_paint:
  "paint (drawBlob st progress c index) = (paint c)\<lparr>fillStyle := blobGradient st progress index\<rparr>
   \<and> stack (drawBlob st progress c index) = stack c"
  by (simp add: drawBlob_def Let_def setFillStyle_def)

lemma blob_indices: "[0..<blobCount] = [0, 1, 2, 3] @ [4]"
  by (simp add: blobCount_def upt_rec)

lemma drawBackground_paint:
  "paint (drawBackground st c progress) = (paint c)\<lparr>fillStyle := blobGradient st progress 4\<rparr>
   \<and> stack (drawBackground st c progress) = stack c"
  by (simp add: drawBackground_def Let_def blob_indices drawBlob_paint setFillStyle_def)

lemma paintFrame_paint:
  assumes "scs \<noteq> []" and "1 \<le> fps" and "0 \<le> cf"
  shows "\<exists>c'. paintFrame env st scs fps cf c = Inr c'
     \<and> paint c' = (paint c)\<lparr>fillStyle :=
           blobGradient st (overallProgress (timelineStep (length scs) fps cf)) 4\<rparr>
     \<and> stack c' = stack c"
proof -
  define t where "t = timelineStep (length scs) fps cf"
  define c1 where "c1 = drawBackground st c (overallProgress t)"
  obtain sc where sc: "sceneAt scs (sceneIndex t) = Some sc"
    using sceneAt_clamped [OF assms] t_def by blast
  obtain c2 where c2: "drawScene env st c1 (Some sc) (opacity t) (motionOffset (length scs) fps cf) = Inr c2"
    "paint c2 = paint c1" "stack c2 = stack c1"
    using drawScene_bracket by blast
  have "paintFrame env st scs fps cf c
      = Inr (drawCaption st (sceneIndex t) sc (drawFill st (overallProgress t) (drawTrack c2)))"
    using sc c2(1) by (simp add: paintFrame_def Let_def t_def [symmetric] c1_def [symmetric])
  then show ?thesis
    using c2 drawBackground_paint [of st c "overallProgress t"]
    by (simp add: drawCaption_bracket drawFill_bracket drawTrack_bracket c1_def t_def)
qed

lemma sample_scenes:
  "scenes ''A|one\<newline>B|two''
     = [\<lparr>title = ''A'', body = Some ''one''\<rparr>, \<lparr>title = ''B'', body = Some ''two''\<rparr>]"
  by (simp add: scenes_def parseLine_def trim_def is_white_def)

lemma fillLines_Nil_lines: "wrapText env c [] centerX centerY maxWidth = c"
  by (simp add: wrapText_def wrapLines_def wrapLoop_def wrapStep_def Let_def)

text \<open>
  C9. For the empty string the word-wrap produces no line and \<open>wrapText\<close> makes no
  drawing call: it leaves the context as it was. So a scene whose title is empty (and
  which has no body) goes through \<open>drawScene\<close> without any drawing call, rather than
  with one blank line of text.
\<close>

theorem wrapText_empty:
  "wrapLines m W [] = []
   \<and> wrapText env c [] centerX centerY maxWidth = c
   \<and> calls (wrapText env c [] centerX centerY maxWidth) = calls c
   \<and> (\<exists>c'. drawScene env st c (Some \<lparr>title = [], body = None\<rparr>) alpha offset = Inr c'
          \<and> calls c' = calls c)"
proof -
  have a: "wrapLines m W [] = []"
    by (simp add: wrapLines_def wrapLoop_def wrapStep_def Let_def)
  have b: "drawScene env st c (Some \<lparr>title = [], body = None\<rparr>) alpha offset
      = Inr (restore (setFont ''700 72px 'Inter', 'Segoe UI', sans-serif''
          (setTextBaseline ''middle'' (setTextAlign ''center''
            (setFillStyle (Color (primaryColor st)) (setGlobalAlpha alpha (save c)))))))"
    by (simp add: drawScene_def Let_def fillLines_Nil_lines)
  have "calls (restore (setFont ''700 72px 'Inter', 'Segoe UI', sans-serif''
          (setTextBaseline ''middle'' (setTextAlign ''center''
            (setFillStyle (Color (primaryColor st)) (setGlobalAlpha alpha (save c))))))) = calls c"
    by (simp add: restore_def setFont_def setTextBaseline_def setTextAlign_def
        setFillStyle_def setGlobalAlpha_def save_def)
  then show ?thesis
    using a b by (simp add: fillLines_Nil_lines)
qed


text \<open>
  C8, as the code has it. In every frame, the scene text, the track of the progress bar,
  its filled part and the caption each save the paint state, change alpha, fill style
  and font, draw, and restore: after each of them the whole paint state and the stack of
  saved states are what they were before it. The background with its blobs is not
  bracketed: it never touches \<open>globalAlpha\<close> and leaves the stack as it was, but it
  leaves the fill style set to the gradient of the last blob. Over a whole frame
  \<open>globalAlpha\<close> and the stack end as they began.
\<close>

theorem paint_state_brackets:
  "(\<exists>c'. drawScene env st c (Some sc) alpha offset = Inr c'
          \<and> paint c' = paint c \<and> stack c' = stack c)
   \<and> paint (drawTrack c) = paint c \<and> stack (drawTrack c) = stack c
   \<and> paint (drawFill st progress c) = paint c \<and> stack (drawFill st progress c) = stack c
   \<and> paint (drawCaption st idx sc c) = paint c \<and> stack (drawCaption st idx sc c) = stack c
   \<and> globalAlpha (paint (drawBackground st c progress)) = globalAlpha (paint c)
   \<and> stack (drawBackground st c progress) = stack c
   \<and> fillStyle (paint (drawBackground st c progress)) = blobGradient st progress 4
   \<and> (scs \<noteq> [] \<and> 1 \<le> fps \<and> 0 \<le> cf \<longrightarrow>
        (\<exists>c'. paintFrame env st scs fps cf c = Inr c'
           \<and> globalAlpha (paint c') = globalAlpha (paint c) \<and> stack c' = stack c))"
proof -
  have "scs \<noteq> [] \<and> 1 \<le> fps \<and> 0 \<le> cf \<longrightarrow>
        (\<exists>c'. paintFrame env st scs fps cf c = Inr c'
           \<and> globalAlpha (paint c') = globalAlpha (paint c) \<and> stack c' = stack c)"
  proof (intro impI, elim conjE)
    assume h: "scs \<noteq> []" "1 \<le> fps" "0 \<le> cf"
    obtain c' where "paintFrame env st scs fps cf c = Inr c'"
      "paint c' = (paint c)\<lparr>fillStyle :=
           blobGradient st (overallProgress (timelineStep (length scs) fps cf)) 4\<rparr>"
      "stack c' = stack c"
      using paintFrame_paint [OF h] by blast
    then show "\<exists>c'. paintFrame env st scs fps cf c = Inr c'
           \<and> globalAlpha (paint c') = globalAlpha (paint c) \<and> stack c' = stack c"
      by simp
  qed
  then show ?thesis
    using drawScene_bracket [of env st c sc alpha offset]
    by (simp add: drawTrack_bracket drawFill_bracket drawCaption_bracket drawBackground_paint)
qed

text \<open>C8 on frame 0 of the sample render, painted on a fresh context.\<close>

theorem paint_state_brackets_witness:
  "scenes ''A|one\<newline>B|two'' \<noteq> [] \<and> (1::int) \<le> 120 \<and> (0::int) \<le> 0
   \<and> (\<exists>c'. paintFrame sampleEnv defaultStyle (scenes ''A|one\<newline>B|two'') 120 0 freshContext = Inr c'
         \<and> globalAlpha (paint c') = 1 \<and> stack c' = [])"
  using paint_state_brackets [of sampleEnv defaultStyle freshContext "\<lparr>title = ''A'', body = Some ''one''\<rparr>"
      0 0 0 0 "scenes ''A|one\<newline>B|two''" 120 0]
  by (simp add: sample_scenes freshContext_def defaultPaint_def)

text \<open>
  C8 as stated fails for the background: on a fresh context, whose fill style is black,
  \<open>drawBackground\<close> at progress 0 returns with the fill style set to the radial
  gradient of blob 4.
\<close>

theorem background_fill_style_leaks:
  "fillStyle (paint freshContext) = Color ''#000000''
   \<and> fillStyle (paint (drawBackground defaultStyle freshContext 0)) = blobGradient defaultStyle 0 4
   \<and> fillStyle (paint (drawBackground defaultStyle freshContext 0)) \<noteq> fillStyle (paint freshContext)"
  by (simp add: drawBackground_paint freshContext_def defaultPaint_def blobGradient_def Let_def)

section \<open>Facts about the render driver\<close>

lemma drawScene_Some: "\<exists>c'. drawScene env st c (Some sc) alpha offset = Inr c'"
  by (simp add: drawScene_def Let_def)

lemma paintFrame_Inr:
  assumes "scs \<noteq> []" and "1 \<le> fps" and "0 \<le> cf"
  shows "\<exists>c'. paintFrame env st scs fps cf c = Inr c'"
proof -
  obtain sc where sc: "sceneAt scs (sceneIndex (timelineStep (length scs) fps cf)) = Some sc"
    using sceneAt_clamped [OF assms] by blast
  obtain c2 where "drawScene env st (drawBackground st c (overallProgress (timelineStep (length scs) fps cf)))
      (Some sc) (opacity (timelineStep (length scs) fps cf)) (motionOffset (length scs) fps cf) = Inr c2"
    using drawScene_Some by blast
  then show ?thesis
    by (simp add: paintFrame_def Let_def sc)
qed

lemma paintFrameEndless_Inr:
  assumes "scs \<noteq> []"
  shows "\<exists>c'. paintFrameEndless env st scs c = Inr c'"
proof -
  have "0 < length scs"
    using assms by simp
  then obtain sc where sc: "sceneAt scs (min (int (length scs) - 1) 0) = Some sc"
    by (simp add: sceneAt_def)
  obtain c2 where "drawScene env st (drawBackground st c 0) (Some sc) 0
      (sin ((0 + of_int (min (int (length scs) - 1) 0) * (1 / 10)) * pi * 2) * 18) = Inr c2"
    using drawScene_Some by blast
  then show ?thesis
    by (simp add: paintFrameEndless_def Let_def sc)
qed

lemma renderFrame_step:
  assumes "well_formed P" and "0 \<le> currentFrame s" and "currentFrame s < 2 ^ 53"
    and "r_totalFrames P = Num (of_int T)"
  shows "currentFrame (renderFrame P s) = currentFrame s + 1"
    and "pending (renderFrame P s) \<longleftrightarrow> currentFrame s + 1 \<le> T"
    and "rafRef (renderFrame P s) \<longleftrightarrow> currentFrame s + 1 \<le> T"
    and "threw (renderFrame P s) = threw s"
    and "recorderRef s = Some Recording \<Longrightarrow>
           recorderRef (renderFrame P s)
             = (if currentFrame s + 1 \<le> T then Some Recording else Some Inactive)"
    and "recorderRef s = Some Recording \<Longrightarrow>
           effects (renderFrame P s)
             = effects s @ [if currentFrame s + 1 \<le> T
                            then RequestAnimationFrame else RecorderStop]"
proof -
  obtain f where f: "1 \<le> f" "r_framesPerScene P = Num (of_int f)" and sc: "r_scenes P \<noteq> []"
    using assms(1) unfolding well_formed_def by blast
  obtain c' where "paintFrame (r_env P) (r_style P) (r_scenes P) f (currentFrame s) (ctx s) = Inr c'"
    using paintFrame_Inr [OF sc f(1) assms(2)] by blast
  then have p: "framePainted P (currentFrame s) (ctx s) = Inr c'"
    by (simp add: framePainted_def f(2))
  have j: "jsSucc (currentFrame s) = currentFrame s + 1"
    using jsSucc_safe [OF assms(2,3)] .
  have r: "renderFrame P s =
      (let s1 = s\<lparr>pending := False, ctx := c', currentFrame := currentFrame s + 1\<rparr>
       in if currentFrame s + 1 \<le> T
          then s1\<lparr>rafRef := True, pending := True,
                  effects := effects s1 @ [RequestAnimationFrame]\<rparr>
          else (let s2 = s1\<lparr>rafRef := False\<rparr>
                in case recorderRef s2 of
                     None \<Rightarrow> s2
                   | Some r \<Rightarrow>
                       if r \<noteq> Inactive
                       then s2\<lparr>recorderRef := Some Inactive,
                               effects := effects s2 @ [RecorderStop]\<rparr>
                       else s2))"
    by (simp add: renderFrame_def p j assms(4) Let_def)
  show "currentFrame (renderFrame P s) = currentFrame s + 1"
    by (simp add: r Let_def split: option.splits)
  show "pending (renderFrame P s) \<longleftrightarrow> currentFrame s + 1 \<le> T"
    by (simp add: r Let_def split: option.splits)
  show "rafRef (renderFrame P s) \<longleftrightarrow> currentFrame s + 1 \<le> T"
    by (simp add: r Let_def split: option.splits)
  show "threw (renderFrame P s) = threw s"
    by (simp add: r Let_def split: option.splits)
  show "recorderRef s = Some Recording \<Longrightarrow>
           recorderRef (renderFrame P s)
             = (if currentFrame s + 1 \<le> T then Some Recording else Some Inactive)"
    by (simp add: r Let_def)
  show "recorderRef s = Some Recording \<Longrightarrow>
           effects (renderFrame P s)
             = effects s @ [if currentFrame s + 1 \<le> T
                            then RequestAnimationFrame else RecorderStop]"
    by (simp add: r Let_def)
qed

text \<open>
  A render with a safe whole number of frames ends: from any state of the loop, once
  the calls that are left have been made.
\<close>

lemma renderStates_run:
  assumes "well_formed P" and "r_totalFrames P = Num (of_int T)" and "T < 2 ^ 53"
  shows "0 \<le> currentFrame s \<Longrightarrow> currentFrame s \<le> T \<Longrightarrow> recorderRef s = Some Recording \<Longrightarrow>
     nat (T - currentFrame s) < k \<Longrightarrow>
       \<exists>tr. renderStates k P s = Some tr
         \<and> map currentFrame tr = [currentFrame s..T + 1]
         \<and> \<not> pending (last tr) \<and> \<not> rafRef (last tr)
         \<and> recorderRef (last tr) = Some Inactive
         \<and> last (effects (last tr)) = RecorderStop
         \<and> threw (last tr) = threw s"
proof (induction k arbitrary: s)
  case 0
  then show ?case by simp
next
  case (Suc k)
  have lt: "currentFrame s < 2 ^ 53"
    using Suc.prems(2) assms(3) by linarith
  note st = renderFrame_step [OF assms(1) Suc.prems(1) lt assms(2)]
  show ?case
  proof (cases "currentFrame s + 1 \<le> T")
    case True
    then have p: "pending (renderFrame P s)"
      using st(2) by simp
    have "\<exists>tr. renderStates k P (renderFrame P s) = Some tr
         \<and> map currentFrame tr = [currentFrame (renderFrame P s)..T + 1]
         \<and> \<not> pending (last tr) \<and> \<not> rafRef (last tr)
         \<and> recorderRef (last tr) = Some Inactive
         \<and> last (effects (last tr)) = RecorderStop
         \<and> threw (last tr) = threw (renderFrame P s)"
      using Suc.prems True st(1) st(5) by (intro Suc.IH) simp_all
    then obtain tr where tr: "renderStates k P (renderFrame P s) = Some tr"
      "map currentFrame tr = [currentFrame s + 1..T + 1]"
      "\<not> pending (last tr)" "\<not> rafRef (last tr)" "recorderRef (last tr) = Some Inactive"
      "last (effects (last tr)) = RecorderStop" "threw (last tr) = threw s"
      using st(1) st(4) by auto
    have ne: "tr \<noteq> []"
      using tr(2) True by (auto simp add: upto_rec1)
    have "map currentFrame (s # tr) = [currentFrame s..T + 1]"
      using tr(2) True upto_rec1 [of "currentFrame s" "T + 1"] by simp
    then show ?thesis
      using p tr ne by (simp add: renderStates.simps)
  next
    case False
    then have p: "\<not> pending (renderFrame P s)"
      using st(2) by simp
    have e: "currentFrame s = T"
      using False Suc.prems(2) by simp
    have "[T..T + 1] = [T, T + 1]"
      by (simp add: upto_rec1)
    then show ?thesis
      using p e False st Suc.prems(3) by (simp add: renderStates.simps)
  qed
qed

text \<open>
  A render whose frame counts are \<open>Infinity\<close> never ends: however many calls are made,
  one more is pending.
\<close>

lemma endless_render:
  assumes "r_scenes P \<noteq> []" and "r_framesPerScene P = PosInfinity"
    and "r_totalFrames P = PosInfinity"
  shows "renderStates k P s = None"
proof (induction k arbitrary: s)
  case 0
  then show ?case by (simp add: renderStates.simps)
next
  case (Suc k)
  obtain c' where "paintFrameEndless (r_env P) (r_style P) (r_scenes P) (ctx s) = Inr c'"
    using paintFrameEndless_Inr [OF assms(1)] by blast
  then have "framePainted P (currentFrame s) (ctx s) = Inr c'"
    by (simp add: framePainted_def assms(2))
  then have "pending (renderFrame P s)"
    by (simp add: renderFrame_def assms(3) Let_def)
  then show ?case
    using Suc.IH [of "renderFrame P s"] by (simp add: renderStates.simps)
qed

lemma startRender_Some:
  assumes "startRender env st scs d s = (s0, Some P)"
  shows "scs \<noteq> []" and "currentFrame s0 = 0" and "recorderRef s0 = Some Recording"
    and "r_totalFrames P = totalFrames d (length scs)" and "threw s0 = False"
    and "r_scenes P = scs" and "r_framesPerScene P = framesPerScene d"
  using assms
  by (auto simp add: startRender_def Let_def split: if_splits option.splits)

text \<open>
  So a render started with a scene duration from \<open>2\<^sup>1\<^sup>0\<^sup>2\<^sup>1\<close> seconds on (\<open>10\<^sup>3\<^sup>0\<^sup>8\<close>, say)
  never ends.
\<close>

lemma huge_render_never_ends:
  assumes "startRender env st scs d s = (s0, Some P)" and "2 ^ 1021 \<le> d"
  shows "renderStates k P s0 = None"
proof -
  note f = startRender_Some [OF assms(1)]
  have "0 < length scs"
    using f(1) by simp
  then have "r_totalFrames P = PosInfinity" "r_framesPerScene P = PosInfinity"
    using framesPerScene_overflow [OF assms(2)] f(4,7) by simp_all
  then show ?thesis
    using endless_render [of P k s0] f(1,6) by simp
qed

lemma finite_total_finite_frames:
  assumes "totalFrames d n = Num t" and "0 < n"
  shows "\<exists>f. 1 \<le> f \<and> framesPerScene d = Num (of_int f) \<and> 0 \<le> t"
proof -
  have "framesPerScene d \<noteq> PosInfinity"
    using assms by (auto simp add: totalFrames_def)
  then obtain f where f: "1 \<le> f" "framesPerScene d = Num (of_int f)"
    using framesPerScene_cases [of d] by blast
  then have "toDouble (of_int f * of_nat n) = Num t"
    using assms(1) by (simp add: totalFrames_def)
  then have "0 \<le> t"
    using toDouble_nonneg [of "of_int f * of_nat n" t] f(1) by simp
  then show ?thesis
    using f by blast
qed

lemma butlast_upto: "i \<le> j \<Longrightarrow> butlast [i..j] = [i..j - 1]"
  using upto_rec2 [of i j] by simp

lemma sample_total_Suc: "totalFrames 4 (Suc (Suc 0)) = Num 240"
  using sample_total by (simp add: numeral_2_eq_2)

lemma sample_start:
  "startRender sampleEnv defaultStyle (scenes ''A|one\<newline>B|two'') 4 idleDriver
     = (sampleStart, Some sampleRender)"
  by (simp add: startRender_def Let_def sample_scenes sample_frames sample_total_Suc sampleEnv_def
      idleDriver_def sampleStart_def sampleRender_def teardownRecording_def
      MIME_PREFERENCE_def FPS_def)

lemma sample_well_formed: "well_formed sampleRender"
proof -
  have "(1::int) \<le> 120 \<and> r_framesPerScene sampleRender = Num (of_int 120)"
    by (simp add: sampleRender_def)
  then show ?thesis
    unfolding well_formed_def using sample_scenes by (auto simp add: sampleRender_def)
qed

text \<open>
  C6, as the code has it. For every render that \<open>handleGenerate\<close> starts (a non-empty
  scene list) whose \<open>totalFrames\<close> is a whole number below \<open>2\<^sup>5\<^sup>3\<close>, the loop ends after
  \<open>totalFrames + 1\<close> calls of \<open>renderFrame\<close>. The frame counter starts at 0 and goes up
  by exactly 1 with each call: the states of the loop carry the counters
  \<open>0, 1, \<dots>, totalFrames + 1\<close>. In every state in which a frame is painted (every state
  but the last) \<open>0 \<le> currentFrame \<le> totalFrames\<close> holds. In the last state, in which
  no further call is requested and the recorder has been told to stop, the counter is
  \<open>totalFrames + 1\<close>; \<open>renderFrame\<close> never throws. (When \<open>totalFrames\<close> is \<open>Infinity\<close>,
  as for a scene duration of \<open>10\<^sup>3\<^sup>0\<^sup>8\<close> seconds, the loop never reaches that state.)
\<close>

theorem frame_counter_bounds:
  assumes "startRender env st scs d s = (s0, Some P)"
    and "totalFrames d (length scs) = Num (of_int T)" and "T < 2 ^ 53"
  shows "\<exists>tr. renderStates (nat T + 1) P s0 = Some tr
       \<and> map currentFrame tr = [0..T + 1]
       \<and> (\<forall>x\<in>set (butlast tr). 0 \<le> currentFrame x \<and> currentFrame x \<le> T)
       \<and> currentFrame (last tr) = T + 1
       \<and> \<not> pending (last tr)
       \<and> recorderRef (last tr) = Some Inactive
       \<and> last (effects (last tr)) = RecorderStop
       \<and> \<not> threw (last tr)"
proof -
  note f = startRender_Some [OF assms(1)]
  obtain fps where fps: "1 \<le> fps" "framesPerScene d = Num (of_int fps)" "0 \<le> real_of_int T"
    using finite_total_finite_frames [OF assms(2)] f(1) by auto
  have w: "well_formed P"
    unfolding well_formed_def using f(1,6,7) fps by auto
  have t: "0 \<le> T" "r_totalFrames P = Num (of_int T)"
    using fps(3) f(4) assms(2) by simp_all
  obtain tr where tr: "renderStates (nat T + 1) P s0 = Some tr"
    "map currentFrame tr = [0..T + 1]" "\<not> pending (last tr)"
    "recorderRef (last tr) = Some Inactive" "last (effects (last tr)) = RecorderStop"
    "threw (last tr) = threw s0"
    using renderStates_run [OF w t(2) assms(3), of s0 "nat T + 1"] f(2,3) t(1) by auto
  have ne: "tr \<noteq> []"
    using tr(2) t(1) by (auto simp add: upto_rec1)
  have "currentFrame (last tr) = last (map currentFrame tr)"
    using ne by (simp add: last_map)
  also have "\<dots> = T + 1"
    using t(1) upto_rec2 [of 0 "T + 1"] by (simp add: tr(2))
  finally have l: "currentFrame (last tr) = T + 1" .
  have "map currentFrame (butlast tr) = [0..T]"
    using tr(2) t(1) butlast_upto [of 0 "T + 1"] by (simp add: map_butlast)
  then have "currentFrame ` set (butlast tr) = {0..T}"
    by (metis set_map set_upto)
  then have b: "\<forall>x\<in>set (butlast tr). 0 \<le> currentFrame x \<and> currentFrame x \<le> T"
    by auto
  show ?thesis
    using tr l b f(5) by auto
qed

text \<open>C6 on the sample render: 2 scenes of 120 frames, counters 0 to 241.\<close>

theorem frame_counter_bounds_witness:
  "startRender sampleEnv defaultStyle (scenes ''A|one\<newline>B|two'') 4 idleDriver
     = (sampleStart, Some sampleRender)
   \<and> totalFrames 4 (length (scenes ''A|one\<newline>B|two'')) = Num 240
   \<and> (240::int) < 2 ^ 53
   \<and> renderStates 241 sampleRender sampleStart \<noteq> None
   \<and> map currentFrame (the (renderStates 241 sampleRender sampleStart)) = [0..241]
   \<and> currentFrame (last (the (renderStates 241 sampleRender sampleStart))) = 241"
proof -
  have t: "totalFrames 4 (length (scenes ''A|one\<newline>B|two'')) = Num (of_int 240)"
    by (simp add: sample_scenes sample_total_Suc)
  have lt: "(240::int) < 2 ^ 53"
    by simp
  have n: "nat 240 + 1 = (241::nat)" "(240::int) + 1 = 241"
    by simp_all
  obtain tr where tr: "renderStates (nat 240 + 1) sampleRender sampleStart = Some tr"
    "map currentFrame tr = [0..240 + 1]" "currentFrame (last tr) = 240 + 1"
    using frame_counter_bounds [OF sample_start t lt] by blast
  have a: "renderStates 241 sampleRender sampleStart = Some tr"
    using tr(1) by (simp only: n)
  have b: "map currentFrame tr = [0..241]" "currentFrame (last tr) = 241"
    using tr(2,3) by (simp_all only: n)
  have t': "totalFrames 4 (length (scenes ''A|one\<newline>B|two'')) = Num 240"
    using t by (simp only: of_int_numeral)
  have c: "renderStates 241 sampleRender sampleStart \<noteq> None"
    "the (renderStates 241 sampleRender sampleStart) = tr"
    by (simp_all only: a option.sel option.distinct not_False_eq_True)
  show ?thesis
    unfolding c(2) using sample_start t' lt c(1) b by blast
qed

text \<open>
  C6 as stated fails in the last state: in the sample render \<open>totalFrames\<close> is 240, the
  loop ends with the 241st call, and the state in which the driver stops the recorder
  has \<open>currentFrame = 241\<close>.
\<close>

theorem completed_state_exceeds_total:
  "r_totalFrames sampleRender = Num 240
   \<and> renderStates 241 sampleRender sampleStart \<noteq> None
   \<and> currentFrame (last (the (renderStates 241 sampleRender sampleStart))) = 241
   \<and> recorderRef (last (the (renderStates 241 sampleRender sampleStart))) = Some Inactive
   \<and> last (effects (last (the (renderStates 241 sampleRender sampleStart)))) = RecorderStop
   \<and> \<not> currentFrame (last (the (renderStates 241 sampleRender sampleStart))) \<le> 240"
proof -
  have t: "r_totalFrames sampleRender = Num (of_int 240)"
    by (simp add: sampleRender_def)
  have lt: "(240::int) < 2 ^ 53"
    by simp
  have s0: "0 \<le> currentFrame sampleStart" "currentFrame sampleStart \<le> 240"
    "recorderRef sampleStart = Some Recording" "nat (240 - currentFrame sampleStart) < 241"
    by (simp_all add: sampleStart_def idleDriver_def)
  obtain tr where tr: "renderStates 241 sampleRender sampleStart = Some tr"
    "map currentFrame tr = [currentFrame sampleStart..240 + 1]"
    "recorderRef (last tr) = Some Inactive" "last (effects (last tr)) = RecorderStop"
    using renderStates_run [OF sample_well_formed t lt s0] by blast
  have z: "currentFrame sampleStart = 0"
    by (simp add: sampleStart_def idleDriver_def)
  have m: "map currentFrame tr = [0..240] @ [241]"
    using upto_rec2 [of 0 241] by (simp only: tr(2) z) simp
  then have ne: "tr \<noteq> []"
    by auto
  have "currentFrame (last tr) = last (map currentFrame tr)"
    using ne by (simp add: last_map)
  then have l: "currentFrame (last tr) = 241"
    by (simp only: m last_snoc)
  have c: "renderStates 241 sampleRender sampleStart \<noteq> None"
    "the (renderStates 241 sampleRender sampleStart) = tr"
    by (simp_all only: tr(1) option.sel option.distinct not_False_eq_True)
  have t': "r_totalFrames sampleRender = Num 240"
    by (simp add: sampleRender_def)
  have "\<not> currentFrame (last tr) \<le> 240"
    by (simp add: l)
  then show ?thesis
    unfolding c(2) using t' c(1) l tr(3,4) by blast
qed

text \<open>
  C7, as the code has it. For every generate request issued when the parsed script
  yields no scene, no render is started: no host call is made (no capture stream, no
  recorder constructed or started, no chunk buffer), nothing is painted, and the state
  changes in \<open>renderError\<close> at most. The error is the no-scenes message when the page
  runs in a browser that has \<open>MediaRecorder\<close> and the canvas is mounted; the guards
  for these come first, and when one of them fails its own outcome is what the request
  gets.
\<close>

theorem no_scenes_no_session:
  assumes "scenes script = []"
  shows "snd (startRender env st (scenes script) d s) = None
       \<and> handleGenerate env st (scenes script) d s
           = s\<lparr>renderError :=
                 (if \<not> isClient env then renderError s
                  else if \<not> hasMediaRecorder env
                  then Some ''MediaRecorder is not supported in this browser.''
                  else if \<not> canvasPresent env then Some ''Canvas unavailable.''
                  else Some ''Add at least one scene to generate a video.'')\<rparr>
       \<and> effects (handleGenerate env st (scenes script) d s) = effects s
       \<and> recorderRef (handleGenerate env st (scenes script) d s) = recorderRef s
       \<and> ctx (handleGenerate env st (scenes script) d s) = ctx s
       \<and> (isClient env \<and> hasMediaRecorder env \<and> canvasPresent env \<longrightarrow>
            renderError (handleGenerate env st (scenes script) d s)
              = Some ''Add at least one scene to generate a video.'')"
  by (simp add: assms handleGenerate_def startRender_def)

text \<open>C7 on a script of blank lines, in the sample browser.\<close>

theorem no_scenes_no_session_witness:
  "scenes '' \<newline>  '' = []
   \<and> handleGenerate sampleEnv defaultStyle (scenes '' \<newline>  '') 4 idleDriver
       = idleDriver\<lparr>renderError := Some ''Add at least one scene to generate a video.''\<rparr>
   \<and> effects (handleGenerate sampleEnv defaultStyle (scenes '' \<newline>  '') 4 idleDriver) = []"
proof -
  have e: "scenes '' \<newline>  '' = []"
    by (simp add: scenes_def trim_def is_white_def)
  show ?thesis
    using no_scenes_no_session [OF e, of sampleEnv defaultStyle 4 idleDriver] e
    by (simp add: sampleEnv_def idleDriver_def)
qed

text \<open>
  C7 as stated fails in a browser without \<open>MediaRecorder\<close>: for the empty script the
  request ends with the recorder message, not the no-scenes message.
\<close>

theorem no_scenes_without_recorder:
  "scenes [] = []
   \<and> renderError (handleGenerate (sampleEnv\<lparr>hasMediaRecorder := False\<rparr>) defaultStyle
        (scenes []) 4 idleDriver)
       = Some ''MediaRecorder is not supported in this browser.''
   \<and> renderError (handleGenerate (sampleEnv\<lparr>hasMediaRecorder := False\<rparr>) defaultStyle
        (scenes []) 4 idleDriver)
       \<noteq> Some ''Add at least one scene to generate a video.''"
proof -
  have e: "scenes [] = []"
    by (simp add: scenes_def trim_def)
  show ?thesis
    by (simp add: e handleGenerate_def startRender_def sampleEnv_def)
qed

end
